theory Spec2Isabelle
  imports Complex_Main "HOL-Library.Word" "HOL-Library.Multiset"
begin

section \<open>The regression-tree grower of TreeRegressor.cpp\<close>

text \<open>
  The embedding follows \<^verbatim>\<open>src/TreeRegressor.cpp\<close> function by function.
  Conventions:
  \<^item> a \<^verbatim>\<open>double\<close> is a \<^typ>\<open>real\<close>: arithmetic is exact, and rounding, infinities
    and NaN are outside the model;
  \<^item> an \<^verbatim>\<open>int\<close> is an \<^typ>\<open>int\<close>; a row index (an element of a
    \<^verbatim>\<open>vector<int>\<close> subset, produced by counting up from 0) is a \<^typ>\<open>nat\<close>;
  \<^item> a \<^verbatim>\<open>SplitNode*\<close> is the position of the node in \<^verbatim>\<open>allSplits_\<close>
    (every node is pushed there exactly once, right after it is allocated), and
    \<^verbatim>\<open>NULL\<close> is \<^term>\<open>None\<close>;
  \<^item> a failed \<^verbatim>\<open>CHECK\<close> aborts the process: it is the value \<^verbatim>\<open>Inl (CHECK_failed c)\<close>;
    an index outside \<^verbatim>\<open>features_\<close> or \<^verbatim>\<open>fimps\<close> (undefined behaviour in C++) is
    \<^verbatim>\<open>Inl Out_of_bounds\<close>;
  \<^item> a member \<^verbatim>\<open>x_\<close> of the source is written without its underscore (an Isabelle
    name cannot end in one), and \<^verbatim>\<open>y_\<close> is \<open>y_targets\<close>;
  \<^item> \<^verbatim>\<open>rand()\<close> reads the next element of a stream of draws that the state counts.
\<close>

subsection \<open>Data\<close>

datatype encoding = EMPTY | BYTE | SHORT

text \<open>Modelled from the spec: the declarations of DataSet.h are missing; section 6 of the
  spec gives each feature an encoding (none, narrow, wide), its bin boundaries and its
  encoded-value array, and the data set the number of examples and of features.\<close>

record feature =
  encoding :: encoding
  transitions :: "real list"
  bvec :: "8 word list"
  svec :: "16 word list"

record DataSet =
  numExamples :: int
  numFeatures :: int
  features :: "feature list"

text \<open>\<^verbatim>\<open>struct SplitNode\<close>, as its constructor initialises it.\<close>

record SplitNode =
  subset :: "nat list"
  fid :: int
  fv :: "16 word"
  gain :: real
  selected :: bool
  left :: "nat option"
  right :: "nat option"

definition SplitNode_new :: "nat list \<Rightarrow> SplitNode" where
  "SplitNode_new st =
     \<lparr>subset = st, fid = - 1, fv = 0, gain = 0, selected = False, left = None, right = None\<rparr>"

text \<open>Modelled from the spec: \<^verbatim>\<open>struct Histogram\<close> of TreeRegressor.h is missing; the
  spec's data model gives it one (count, sum of targets) pair per bin and the subset's total
  count and total target sum, all bins empty at construction.\<close>

record Histogram =
  num :: int
  cnt :: "int list"
  sumy :: "real list"
  totalCnt :: int
  totalSum :: real

definition Histogram_new :: "int \<Rightarrow> int \<Rightarrow> real \<Rightarrow> Histogram" where
  "Histogram_new n c s =
     \<lparr>num = n, cnt = replicate (nat n) 0, sumy = replicate (nat n) 0, totalCnt = c, totalSum = s\<rparr>"

text \<open>The members a \<^verbatim>\<open>TreeRegressor\<close> is constructed with, and the process-wide constants
  it reads: the flag \<^verbatim>\<open>min_leaf_examples\<close>, \<^verbatim>\<open>RAND_MAX\<close> and the draws of \<^verbatim>\<open>rand()\<close>.\<close>

record TreeRegressor =
  ds :: DataSet
  y_targets :: "real list"
  getLeafVal :: "nat list \<Rightarrow> real list \<Rightarrow> real"
  FLAGS_min_leaf_examples :: int
  RAND_MAX :: int
  rand_stream :: "nat \<Rightarrow> int"

text \<open>What a growth call mutates: the arena, the frontier, and how many draws were taken.\<close>

record state =
  allSplits :: "SplitNode list"
  frontiers :: "nat list"
  rand_calls :: nat

definition fresh :: state where
  "fresh = \<lparr>allSplits = [], frontiers = [], rand_calls = 0\<rparr>"

datatype check =
  Hist_num_ge_1 | Encoding_is_SHORT | Frontier_size | BestGain_positive
  | Sampled_subset_size | Leaf_subset_size

datatype abort = CHECK_failed check | Out_of_bounds

datatype TreeNode =
  LeafNode real
  | PartitionNode int "16 word" real "TreeNode option" "TreeNode option"

subsection \<open>Sampling\<close>

definition biasedCoinFlip :: "TreeRegressor \<Rightarrow> real \<Rightarrow> state \<Rightarrow> bool \<times> state" where
  "biasedCoinFlip t probabilityOfTrue s =
     (real_of_int (rand_stream t (rand_calls s)) < probabilityOfTrue * real_of_int (RAND_MAX t),
      s\<lparr>rand_calls := rand_calls s + 1\<rparr>)"

subsection \<open>Histograms and the split evaluator\<close>

text \<open>Modelled from the spec: the template \<^verbatim>\<open>buildHistogram\<close> of TreeRegressor.h is
  missing; section 4.1: for each row, look up its bin code for the feature and accumulate
  its target value into that bin's count and sum.\<close>

fun buildHistogram :: "real list \<Rightarrow> nat list \<Rightarrow> 'a::len word list \<Rightarrow> Histogram \<Rightarrow> Histogram" where
  "buildHistogram ys [] fvec hist = hist"
| "buildHistogram ys (i # rows) fvec hist =
     (let v = unat (fvec ! i)
      in buildHistogram ys rows fvec
           (hist\<lparr>cnt := (cnt hist)[v := cnt hist ! v + 1],
                 sumy := (sumy hist)[v := sumy hist ! v + ys ! i]\<rparr>))"

text \<open>The \<^verbatim>\<open>for\<close> loop of \<^verbatim>\<open>getBestSplitFromHistogram\<close>, from index \<open>i\<close> on.\<close>

function hist_loop ::
  "int \<Rightarrow> Histogram \<Rightarrow> real \<Rightarrow> nat \<Rightarrow> int \<Rightarrow> real \<Rightarrow> real \<Rightarrow> int \<Rightarrow> int \<times> real" where
  "hist_loop minLeaf hist lossBefore i cntLeft0 sumLeft0 bestGain bestIdx =
     (if int i < num hist - 1 then
        (let cntLeft = cntLeft0 + cnt hist ! i;
             sumLeft = sumLeft0 + sumy hist ! i;
             sumRight = totalSum hist - sumLeft;
             cntRight = totalCnt hist - cntLeft
         in if cntLeft < minLeaf then
              hist_loop minLeaf hist lossBefore (Suc i) cntLeft sumLeft bestGain bestIdx
            else if cntRight < minLeaf then (bestIdx, bestGain)
            else
              (let lossAfter =
                     - 1 * sumLeft * sumLeft / real_of_int cntLeft
                     - 1 * sumRight * sumRight / real_of_int cntRight;
                   g = lossBefore - lossAfter
               in if g > bestGain then
                    hist_loop minLeaf hist lossBefore (Suc i) cntLeft sumLeft g (int i)
                  else hist_loop minLeaf hist lossBefore (Suc i) cntLeft sumLeft bestGain bestIdx))
      else (bestIdx, bestGain))"
  by pat_completeness auto
termination
  by (relation "measure (\<lambda>(minLeaf, hist, lossBefore, i, r). nat (num hist - 1) - i)") auto

declare hist_loop.simps [simp del]

definition getBestSplitFromHistogram :: "int \<Rightarrow> Histogram \<Rightarrow> abort + int \<times> real" where
  "getBestSplitFromHistogram minLeaf hist =
     (let lossBefore = - 1 * totalSum hist * totalSum hist / real_of_int (totalCnt hist)
      in if \<not> num hist \<ge> 1 then Inl (CHECK_failed Hist_num_ge_1)
         else Inr (hist_loop minLeaf hist lossBefore 0 0 0 0 (- 1)))"

subsection \<open>Partitioning a subset\<close>

text \<open>Modelled from the spec: the template \<^verbatim>\<open>boosting::split\<close> is declared in a
  header that is missing; section 4.5: a row goes left iff its encoded value for the
  feature is \<open>\<le>\<close> the threshold, else right. Rows are appended in subset order.\<close>

fun split ::
  "nat list \<Rightarrow> nat list \<times> nat list \<Rightarrow> 'a::len word list \<Rightarrow> 16 word \<Rightarrow> nat list \<times> nat list" where
  "split [] lr fvec v = lr"
| "split (i # rows) lr fvec v =
     (if unat (fvec ! i) \<le> unat v then split rows (fst lr @ [i], snd lr) fvec v
      else split rows (fst lr, snd lr @ [i]) fvec v)"

definition splitExamples ::
  "TreeRegressor \<Rightarrow> SplitNode \<Rightarrow> nat list \<times> nat list \<Rightarrow> abort + nat list \<times> nat list" where
  "splitExamples t node lr =
     (if fid node < 0 \<or> int (length (features (ds t))) \<le> fid node then Inl Out_of_bounds
      else
        (let f = features (ds t) ! nat (fid node)
         in if encoding f = BYTE then Inr (split (subset node) lr (bvec f) (fv node))
            else if encoding f \<noteq> SHORT then Inl (CHECK_failed Encoding_is_SHORT)
            else Inr (split (subset node) lr (svec f) (fv node))))"

subsection \<open>Candidate construction\<close>

text \<open>One pass of the feature loop of \<^verbatim>\<open>getBestSplit\<close>, for feature \<open>k\<close>; the
  accumulator holds \<^verbatim>\<open>bestFid\<close>, \<^verbatim>\<open>bestFv\<close>, \<^verbatim>\<open>bestGain\<close> and the state.\<close>

definition feature_step ::
  "TreeRegressor \<Rightarrow> nat list \<Rightarrow> real \<Rightarrow> real \<Rightarrow> nat \<Rightarrow> (int \<times> int \<times> real) \<times> state
     \<Rightarrow> abort + (int \<times> int \<times> real) \<times> state" where
  "feature_step t sub featureSamplingRate tsum k acc =
     (if length (features (ds t)) \<le> k then Inl Out_of_bounds
      else
        (let f = features (ds t) ! k
         in if encoding f = EMPTY then Inr acc
            else
              (case biasedCoinFlip t featureSamplingRate (snd acc) of
                 (coin, s') \<Rightarrow>
                   if \<not> coin then Inr (fst acc, s')
                   else
                     (let hist0 = Histogram_new (int (length (transitions f)) + 1)
                                    (int (length sub)) tsum
                      in case (if encoding f = BYTE then
                                 Inr (buildHistogram (y_targets t) sub (bvec f) hist0)
                               else if encoding f \<noteq> SHORT then
                                 Inl (CHECK_failed Encoding_is_SHORT)
                               else Inr (buildHistogram (y_targets t) sub (svec f) hist0)) of
                           Inl a \<Rightarrow> Inl a
                         | Inr hist \<Rightarrow>
                             (case getBestSplitFromHistogram (FLAGS_min_leaf_examples t) hist of
                                Inl a \<Rightarrow> Inl a
                              | Inr (v, g) \<Rightarrow>
                                  if g > snd (snd (fst acc)) then Inr ((int k, v, g), s')
                                  else Inr (fst acc, s'))))))"

function feature_loop ::
  "TreeRegressor \<Rightarrow> nat list \<Rightarrow> real \<Rightarrow> real \<Rightarrow> nat \<Rightarrow> (int \<times> int \<times> real) \<times> state
     \<Rightarrow> abort + (int \<times> int \<times> real) \<times> state" where
  "feature_loop t sub featureSamplingRate tsum k acc =
     (if int k < numFeatures (ds t) then
        (case feature_step t sub featureSamplingRate tsum k acc of
           Inl a \<Rightarrow> Inl a
         | Inr acc' \<Rightarrow> feature_loop t sub featureSamplingRate tsum (Suc k) acc')
      else Inr acc)"
  by pat_completeness auto
termination
  by (relation "measure (\<lambda>(t, sub, r, tsum, k, acc). nat (numFeatures (ds t)) - k)") auto

declare feature_loop.simps [simp del]

text \<open>\<^verbatim>\<open>getBestSplit\<close> returns the new node's pointer: its position in the arena.\<close>

definition getBestSplit ::
  "TreeRegressor \<Rightarrow> nat list \<Rightarrow> real \<Rightarrow> bool \<Rightarrow> state \<Rightarrow> abort + nat \<times> state" where
  "getBestSplit t sub featureSamplingRate terminal s =
     (if terminal then
        Inr (length (allSplits s), s\<lparr>allSplits := allSplits s @ [SplitNode_new sub]\<rparr>)
      else
        (let tsum = foldl (\<lambda>a i. a + y_targets t ! i) 0 sub
         in case feature_loop t sub featureSamplingRate tsum 0 ((- 1, 0, 0), s) of
              Inl a \<Rightarrow> Inl a
            | Inr ((bestFid, bestFv, bestGain), s') \<Rightarrow>
                Inr (length (allSplits s'),
                     s'\<lparr>frontiers := frontiers s' @ [length (allSplits s')],
                        allSplits := allSplits s' @
                          [(SplitNode_new sub)\<lparr>fid := bestFid, fv := word_of_int bestFv,
                                                gain := bestGain\<rparr>]\<rparr>)))"

subsection \<open>Best-first growth\<close>

text \<open>The linear search over the frontier; \<^verbatim>\<open>best_it\<close> is a position in
  \<^verbatim>\<open>frontiers_\<close>, and \<^term>\<open>None\<close> is \<^verbatim>\<open>frontiers_.end()\<close>.\<close>

fun frontier_scan ::
  "SplitNode list \<Rightarrow> nat list \<Rightarrow> nat \<Rightarrow> real \<Rightarrow> nat option \<Rightarrow> real \<times> nat option" where
  "frontier_scan nodes [] k bestGain best_it = (bestGain, best_it)"
| "frontier_scan nodes (p # ps) k bestGain best_it =
     (if gain (nodes ! p) > bestGain then
        frontier_scan nodes ps (Suc k) (gain (nodes ! p)) (Some k)
      else frontier_scan nodes ps (Suc k) bestGain best_it)"

text \<open>The body of the \<^verbatim>\<open>do\<close> loop of \<^verbatim>\<open>getBestSplits\<close>. The flag of the result
  says whether the body left the loop by \<^verbatim>\<open>break\<close>.\<close>

definition select_expand ::
  "TreeRegressor \<Rightarrow> int \<Rightarrow> real \<Rightarrow> int \<times> state \<Rightarrow> abort + bool \<times> int \<times> state" where
  "select_expand t numSplits featureSamplingRate ns =
     (let numSelected = fst ns; s = snd ns
      in if int (length (frontiers s)) \<noteq> numSelected + 1 then Inl (CHECK_failed Frontier_size)
         else
           (case frontier_scan (allSplits s) (frontiers s) 0 0 None of
              (bestGain, None) \<Rightarrow> Inr (True, numSelected, s)
            | (bestGain, Some k) \<Rightarrow>
                if \<not> bestGain > 0 then Inl (CHECK_failed BestGain_positive)
                else
                  (let p = frontiers s ! k;
                       s1 = s\<lparr>allSplits := (allSplits s)[p := (allSplits s ! p)\<lparr>selected := True\<rparr>],
                              frontiers := take k (frontiers s) @ drop (Suc k) (frontiers s)\<rparr>;
                       numSelected' = numSelected + 1
                   in case splitExamples t (allSplits s1 ! p) ([], []) of
                        Inl a \<Rightarrow> Inl a
                      | Inr (l, r) \<Rightarrow>
                          (let terminal = (numSelected' = numSplits)
                           in case getBestSplit t l featureSamplingRate terminal s1 of
                                Inl a \<Rightarrow> Inl a
                              | Inr (pl, s2) \<Rightarrow>
                                  (case getBestSplit t r featureSamplingRate terminal
                                          (s2\<lparr>allSplits := (allSplits s2)
                                                [p := (allSplits s2 ! p)\<lparr>left := Some pl\<rparr>]\<rparr>) of
                                     Inl a \<Rightarrow> Inl a
                                   | Inr (pr, s3) \<Rightarrow>
                                       Inr (False, numSelected',
                                            s3\<lparr>allSplits := (allSplits s3)
                                                  [p := (allSplits s3 ! p)\<lparr>right := Some pr\<rparr>]\<rparr>))))))"

function do_while :: "TreeRegressor \<Rightarrow> int \<Rightarrow> real \<Rightarrow> int \<times> state \<Rightarrow> abort + int \<times> state" where
  "do_while t numSplits featureSamplingRate ns =
     (case select_expand t numSplits featureSamplingRate ns of
        Inl a \<Rightarrow> Inl a
      | Inr (brk, numSelected', s') \<Rightarrow>
          if \<not> brk \<and> numSelected' < numSplits then
            do_while t numSplits featureSamplingRate (numSelected', s')
          else Inr (numSelected', s'))"
  by pat_completeness auto
termination
proof (relation "measure (\<lambda>(t, numSplits, r, ns). nat (numSplits - fst ns))")
  show "wf (measure (\<lambda>(t, numSplits, r, ns). nat (numSplits - fst ns)))"
    by simp
next
  fix t :: TreeRegressor and numSplits :: int and featureSamplingRate :: real
    and ns :: "int \<times> state" and b x y xa ya
  assume "select_expand t numSplits featureSamplingRate ns = Inr b"
    and "(x, y) = b" and "(xa, ya) = y" and "\<not> x \<and> xa < numSplits"
  then have e: "select_expand t numSplits featureSamplingRate ns = Inr (False, xa, ya)"
    and lt: "xa < numSplits"
    by auto
  from e have "xa = fst ns + 1"
    by (auto simp: select_expand_def Let_def
        split: if_splits prod.splits option.splits sum.splits)
  with lt show "((t, numSplits, featureSamplingRate, xa, ya), t, numSplits, featureSamplingRate, ns)
      \<in> measure (\<lambda>(t, numSplits, r, ns). nat (numSplits - fst ns))"
    by simp
qed

declare do_while.simps [simp del]

text \<open>\<^verbatim>\<open>getBestSplits\<close>; \<^verbatim>\<open>CHECK(subset != NULL)\<close> cannot fail here, a subset being
  a value.\<close>

definition getBestSplits ::
  "TreeRegressor \<Rightarrow> nat list \<Rightarrow> int \<Rightarrow> real \<Rightarrow> state \<Rightarrow> abort + nat \<times> state" where
  "getBestSplits t sub numSplits featureSamplingRate s =
     (case getBestSplit t sub featureSamplingRate False s of
        Inl a \<Rightarrow> Inl a
      | Inr (firstSplit, s1) \<Rightarrow>
          (case do_while t numSplits featureSamplingRate (0, s1) of
             Inl a \<Rightarrow> Inl a
           | Inr (numSelected, s2) \<Rightarrow> Inr (firstSplit, s2)))"

subsection \<open>Materialising the tree\<close>

text \<open>A \<^verbatim>\<open>size_t\<close> compared with an \<^verbatim>\<open>int\<close> converts the \<^verbatim>\<open>int\<close> to 64 bits
  unsigned.\<close>

definition as_size_t :: "int \<Rightarrow> int" where
  "as_size_t x = x mod 2 ^ 64"

text \<open>The result of \<^verbatim>\<open>int\<close> arithmetic that may leave the 32 bits of an \<^verbatim>\<open>int\<close>: it
  wraps around.\<close>

definition int32 :: "int \<Rightarrow> int" where
  "int32 x = (x + 2 ^ 31) mod 2 ^ 32 - 2 ^ 31"

text \<open>\<^verbatim>\<open>getTreeHelper\<close> follows pointers, so its recursion is bounded by fuel: \<^term>\<open>None\<close>
  is a recursion that did not return within the fuel given.\<close>

fun getTreeHelper ::
  "nat \<Rightarrow> TreeRegressor \<Rightarrow> SplitNode list \<Rightarrow> nat option \<Rightarrow> real list
     \<Rightarrow> (abort + TreeNode option \<times> real list) option" where
  "getTreeHelper n t nodes None fimps = Some (Inr (None, fimps))"
| "getTreeHelper 0 t nodes (Some p) fimps = None"
| "getTreeHelper (Suc n) t nodes (Some p) fimps =
     (let node = nodes ! p
      in if \<not> selected node then
           (let fvote = getLeafVal t (subset node) (y_targets t)
            in if \<not> int (length (subset node)) \<ge> as_size_t (FLAGS_min_leaf_examples t) then
                 Some (Inl (CHECK_failed Leaf_subset_size))
               else Some (Inr (Some (LeafNode fvote), fimps)))
         else if fid node < 0 \<or> int (length fimps) \<le> fid node then Some (Inl Out_of_bounds)
         else
           (let fimps1 = fimps[nat (fid node) := fimps ! nat (fid node) + gain node];
                fvote = getLeafVal t (subset node) (y_targets t)
            in case getTreeHelper n t nodes (left node) fimps1 of
                 None \<Rightarrow> None
               | Some (Inl a) \<Rightarrow> Some (Inl a)
               | Some (Inr (lt, fimps2)) \<Rightarrow>
                   (case getTreeHelper n t nodes (right node) fimps2 of
                      None \<Rightarrow> None
                    | Some (Inl a) \<Rightarrow> Some (Inl a)
                    | Some (Inr (rt, fimps3)) \<Rightarrow>
                        Some (Inr (Some (PartitionNode (fid node) (fv node) fvote lt rt),
                                   fimps3)))))"

text \<open>The sampling loop of \<^verbatim>\<open>getTree\<close>, from row \<open>i\<close> on.\<close>

function sample_loop ::
  "TreeRegressor \<Rightarrow> real \<Rightarrow> nat \<Rightarrow> nat list \<times> state \<Rightarrow> nat list \<times> state" where
  "sample_loop t exampleSamplingRate i acc =
     (if int i < numExamples (ds t) then
        (case biasedCoinFlip t exampleSamplingRate (snd acc) of
           (coin, s') \<Rightarrow>
             sample_loop t exampleSamplingRate (Suc i)
               (if coin then fst acc @ [i] else fst acc, s'))
      else acc)"
  by pat_completeness auto
termination
  by (relation "measure (\<lambda>(t, r, i, acc). nat (numExamples (ds t)) - i)") auto

declare sample_loop.simps [simp del]

text \<open>\<^verbatim>\<open>getTree\<close>: the tree, the importances and the state after the call. The product
  in the \<^verbatim>\<open>CHECK\<close> and the difference \<^verbatim>\<open>numLeaves - 1\<close> are \<^verbatim>\<open>int\<close> arithmetic. The
  helper gets as much fuel as the arena has nodes.\<close>

definition getTree ::
  "TreeRegressor \<Rightarrow> int \<Rightarrow> real \<Rightarrow> real \<Rightarrow> real list \<Rightarrow> state
     \<Rightarrow> (abort + TreeNode option \<times> real list \<times> state) option" where
  "getTree t numLeaves exampleSamplingRate featureSamplingRate fimps s =
     (case sample_loop t exampleSamplingRate 0 ([], s) of
        (sub, s1) \<Rightarrow>
          if \<not> int (length sub) \<ge> as_size_t (int32 (FLAGS_min_leaf_examples t * numLeaves)) then
            Some (Inl (CHECK_failed Sampled_subset_size))
          else
            (case getBestSplits t sub (int32 (numLeaves - 1)) featureSamplingRate s1 of
               Inl a \<Rightarrow> Some (Inl a)
             | Inr (rootSplit, s2) \<Rightarrow>
                 (case getTreeHelper (length (allSplits s2)) t (allSplits s2) (Some rootSplit) fimps of
                    None \<Rightarrow> None
                  | Some (Inl a) \<Rightarrow> Some (Inl a)
                  | Some (Inr (tree, fimps')) \<Rightarrow> Some (Inr (tree, fimps', s2)))))"

section \<open>Specification-side definitions\<close>

subsection \<open>The split evaluator's contract\<close>

text \<open>The quantities of section 4.2 of the spec, for a boundary index \<open>idx\<close>: the
  cumulative count and sum of bins \<open>0..idx\<close>, the two losses, the gain, and when an index
  may be reported (both sides hold at least \<open>m\<close> rows).\<close>

definition cntLeft_at :: "Histogram \<Rightarrow> nat \<Rightarrow> int" where
  "cntLeft_at h idx = sum_list (take (Suc idx) (cnt h))"

definition sumLeft_at :: "Histogram \<Rightarrow> nat \<Rightarrow> real" where
  "sumLeft_at h idx = sum_list (take (Suc idx) (sumy h))"

definition lossBefore_of :: "Histogram \<Rightarrow> real" where
  "lossBefore_of h = - ((totalSum h)\<^sup>2) / real_of_int (totalCnt h)"

definition lossAfter_at :: "Histogram \<Rightarrow> nat \<Rightarrow> real" where
  "lossAfter_at h idx =
     - ((sumLeft_at h idx)\<^sup>2) / real_of_int (cntLeft_at h idx)
     - ((totalSum h - sumLeft_at h idx)\<^sup>2) / real_of_int (totalCnt h - cntLeft_at h idx)"

definition gain_at :: "Histogram \<Rightarrow> nat \<Rightarrow> real" where
  "gain_at h idx = lossBefore_of h - lossAfter_at h idx"

definition eligible :: "int \<Rightarrow> Histogram \<Rightarrow> nat \<Rightarrow> bool" where
  "eligible m h idx \<longleftrightarrow>
     int idx < num h - 1 \<and> m \<le> cntLeft_at h idx \<and> m \<le> totalCnt h - cntLeft_at h idx"

text \<open>\<open>best_upto m h i r\<close>: the pair \<open>r\<close> is the earliest best split among the
  indices below \<open>i\<close>, or the sentinel when none of them has a positive gain.\<close>

definition best_upto :: "int \<Rightarrow> Histogram \<Rightarrow> nat \<Rightarrow> int \<times> real \<Rightarrow> bool" where
  "best_upto m h i r \<longleftrightarrow>
     (if \<exists>j<i. eligible m h j \<and> 0 < gain_at h j then
        0 \<le> fst r \<and> nat (fst r) < i \<and> eligible m h (nat (fst r)) \<and> snd r = gain_at h (nat (fst r))
        \<and> (\<forall>j<i. eligible m h j \<longrightarrow> gain_at h j \<le> snd r)
        \<and> (\<forall>j<nat (fst r). eligible m h j \<longrightarrow> gain_at h j < snd r)
      else fst r = - 1 \<and> snd r = 0)"

text \<open>What the constructor and \<^verbatim>\<open>buildHistogram\<close> establish: one entry per bin in both
  arrays, and counts that are counts.\<close>

definition hist_wf :: "Histogram \<Rightarrow> bool" where
  "hist_wf h \<longleftrightarrow>
     length (cnt h) = nat (num h) \<and> length (sumy h) = nat (num h) \<and> (\<forall>c\<in>set (cnt h). 0 \<le> c)"




subsection \<open>Well-formed data and candidates\<close>

text \<open>The encoded value of row \<open>i\<close> for a feature, as \<^verbatim>\<open>splitExamples\<close> and the histogram
  builder read it: from the narrow array of a narrow feature, else from the wide one.\<close>

definition code_of :: "feature \<Rightarrow> nat \<Rightarrow> nat" where
  "code_of f i = (if encoding f = BYTE then unat (bvec f ! i) else unat (svec f ! i))"

text \<open>A row goes left at a node iff its encoded value for the node's feature is at most the
  node's threshold.\<close>

definition goes_left :: "TreeRegressor \<Rightarrow> SplitNode \<Rightarrow> nat \<Rightarrow> bool" where
  "goes_left t n i \<longleftrightarrow> code_of (features (ds t) ! nat (fid n)) i \<le> unat (fv n)"

definition rows_ok :: "TreeRegressor \<Rightarrow> nat list \<Rightarrow> bool" where
  "rows_ok t sub \<longleftrightarrow> (\<forall>i\<in>set sub. int i < numExamples (ds t))"

text \<open>What the collaborators that build a data set guarantee (sections 3 and 4.1 of the
  spec): a feature that is not empty has at most 65536 bins, and the code of every row is
  one of its bins.\<close>

definition ds_wf :: "TreeRegressor \<Rightarrow> bool" where
  "ds_wf t \<longleftrightarrow>
     (\<forall>f\<in>set (features (ds t)). encoding f \<noteq> EMPTY \<longrightarrow>
        length (transitions f) \<le> 65535 \<and>
        (\<forall>i<nat (numExamples (ds t)). code_of f i \<le> length (transitions f)))"

text \<open>What the feature loop of \<^verbatim>\<open>getBestSplit\<close> keeps true of its best triple for the
  subset \<open>sub\<close>: the gain is not negative; a gain of \<open>0\<close> goes with the initial
  \<open>(- 1, 0)\<close>; a positive gain goes with a feature of the data set that is not empty, a
  boundary index of that feature and, on well-formed data, two sides of at least
  \<open>min_leaf_examples\<close> rows.\<close>

definition split_ok :: "TreeRegressor \<Rightarrow> nat list \<Rightarrow> int \<times> int \<times> real \<Rightarrow> bool" where
  "split_ok t sub b \<longleftrightarrow>
     0 \<le> snd (snd b) \<and>
     (snd (snd b) = 0 \<longrightarrow> fst b = - 1 \<and> fst (snd b) = 0) \<and>
     (0 < snd (snd b) \<longrightarrow>
        0 \<le> fst b \<and> fst b < numFeatures (ds t) \<and> nat (fst b) < length (features (ds t)) \<and>
        encoding (features (ds t) ! nat (fst b)) \<noteq> EMPTY \<and>
        0 \<le> fst (snd b) \<and>
        fst (snd b) < int (length (transitions (features (ds t) ! nat (fst b)))) \<and>
        (ds_wf t \<and> rows_ok t sub \<longrightarrow>
           FLAGS_min_leaf_examples t
             \<le> int (length (filter (\<lambda>i. code_of (features (ds t) ! nat (fst b)) i
                                          \<le> nat (fst (snd b))) sub)) \<and>
           FLAGS_min_leaf_examples t
             \<le> int (length (filter (\<lambda>i. \<not> code_of (features (ds t) ! nat (fst b)) i
                                          \<le> nat (fst (snd b))) sub))))"

text \<open>The same of a node of the arena.\<close>

definition node_ok :: "TreeRegressor \<Rightarrow> SplitNode \<Rightarrow> bool" where
  "node_ok t n \<longleftrightarrow>
     0 \<le> gain n \<and>
     (gain n = 0 \<longrightarrow> fid n = - 1) \<and>
     (0 < gain n \<longrightarrow>
        0 \<le> fid n \<and> fid n < numFeatures (ds t) \<and> nat (fid n) < length (features (ds t)) \<and>
        encoding (features (ds t) ! nat (fid n)) \<noteq> EMPTY \<and>
        unat (fv n) < length (transitions (features (ds t) ! nat (fid n))) \<and>
        (ds_wf t \<and> rows_ok t (subset n) \<longrightarrow>
           FLAGS_min_leaf_examples t \<le> int (length (filter (goes_left t n) (subset n))) \<and>
           FLAGS_min_leaf_examples t
             \<le> int (length (filter (\<lambda>i. \<not> goes_left t n i) (subset n)))))"

text \<open>A candidate as \<^verbatim>\<open>getBestSplit\<close> leaves it in the arena: it owns \<open>sub\<close>, is not
  selected and has no children.\<close>

definition new_leaf :: "TreeRegressor \<Rightarrow> nat list \<Rightarrow> SplitNode \<Rightarrow> bool" where
  "new_leaf t sub n \<longleftrightarrow>
     subset n = sub \<and> \<not> selected n \<and> left n = None \<and> right n = None \<and> node_ok t n"

text \<open>What the search over the frontier knows after the entries \<open>pre\<close>: no entry has more
  than the best gain; the best position, if any, holds that gain, which is positive and
  strictly more than the gain of every entry before it.\<close>

definition scan_inv :: "SplitNode list \<Rightarrow> nat list \<Rightarrow> real \<Rightarrow> nat option \<Rightarrow> bool" where
  "scan_inv nodes pre bg bi \<longleftrightarrow>
     0 \<le> bg \<and> (\<forall>j<length pre. gain (nodes ! (pre ! j)) \<le> bg) \<and>
     (case bi of
        None \<Rightarrow> bg = 0
      | Some k \<Rightarrow> k < length pre \<and> bg = gain (nodes ! (pre ! k)) \<and> 0 < bg \<and>
          (\<forall>j<k. gain (nodes ! (pre ! j)) < bg))"

subsection \<open>The arena during growth\<close>

text \<open>The arena after the frontier entry \<open>p\<close> was selected and expanded into the two new
  candidates \<open>nl\<close> and \<open>nr\<close>.\<close>

definition expand :: "SplitNode list \<Rightarrow> nat \<Rightarrow> SplitNode \<Rightarrow> SplitNode \<Rightarrow> SplitNode list" where
  "expand ns p nl nr =
     ns[p := (ns ! p)\<lparr>selected := True, left := Some (length ns),
                       right := Some (Suc (length ns))\<rparr>] @ [nl, nr]"

text \<open>Every selected node has a positive gain and two children, created after it, that own
  the two sides of its subset; a node that is not selected has no children.\<close>

definition linked :: "TreeRegressor \<Rightarrow> SplitNode list \<Rightarrow> bool" where
  "linked t ns \<longleftrightarrow>
     (\<forall>p<length ns.
        if selected (ns ! p) then
          0 < gain (ns ! p) \<and>
          (\<exists>l r. left (ns ! p) = Some l \<and> right (ns ! p) = Some r \<and> p < l \<and> l < r \<and>
             r < length ns \<and>
             subset (ns ! l) = filter (goes_left t (ns ! p)) (subset (ns ! p)) \<and>
             subset (ns ! r) = filter (\<lambda>i. \<not> goes_left t (ns ! p) i) (subset (ns ! p)))
        else left (ns ! p) = None \<and> right (ns ! p) = None)"

text \<open>The frontier holds distinct pointers to nodes of the arena that are not selected.\<close>

definition frontier_ok :: "state \<Rightarrow> bool" where
  "frontier_ok s \<longleftrightarrow>
     distinct (frontiers s) \<and>
     (\<forall>q\<in>set (frontiers s). q < length (allSplits s) \<and> \<not> selected (allSplits s ! q))"

text \<open>The shape of the arena as a binary tree of node positions.\<close>

datatype stree = SLeaf nat | SNode nat stree stree

fun top :: "stree \<Rightarrow> nat" where
  "top (SLeaf p) = p"
| "top (SNode p a b) = p"

fun labels :: "stree \<Rightarrow> nat list" where
  "labels (SLeaf p) = [p]"
| "labels (SNode p a b) = p # labels a @ labels b"

fun internal :: "stree \<Rightarrow> nat list" where
  "internal (SLeaf p) = []"
| "internal (SNode p a b) = p # internal a @ internal b"

fun leaves :: "stree \<Rightarrow> nat list" where
  "leaves (SLeaf p) = [p]"
| "leaves (SNode p a b) = leaves a @ leaves b"

fun height :: "stree \<Rightarrow> nat" where
  "height (SLeaf p) = 1"
| "height (SNode p a b) = Suc (max (height a) (height b))"

fun tree_at :: "SplitNode list \<Rightarrow> stree \<Rightarrow> bool" where
  "tree_at ns (SLeaf p) \<longleftrightarrow> p < length ns \<and> \<not> selected (ns ! p)"
| "tree_at ns (SNode p a b) \<longleftrightarrow>
     p < length ns \<and> selected (ns ! p) \<and> left (ns ! p) = Some (top a) \<and>
     right (ns ! p) = Some (top b) \<and> tree_at ns a \<and> tree_at ns b"

fun subst_leaf :: "nat \<Rightarrow> stree \<Rightarrow> stree \<Rightarrow> stree" where
  "subst_leaf p new (SLeaf q) = (if q = p then new else SLeaf q)"
| "subst_leaf p new (SNode q a b) = SNode q (subst_leaf p new a) (subst_leaf p new b)"

text \<open>The arena is a tree rooted at its first node that holds every node exactly once.\<close>

definition shaped :: "SplitNode list \<Rightarrow> bool" where
  "shaped ns \<longleftrightarrow>
     (\<exists>tr. top tr = 0 \<and> tree_at ns tr \<and> distinct (labels tr) \<and>
        set (labels tr) = {..<length ns})"

text \<open>The importances after the increments of the selected nodes of a tree, in the order
  in which \<^verbatim>\<open>getTreeHelper\<close> visits them.\<close>

fun add_gains :: "SplitNode list \<Rightarrow> stree \<Rightarrow> real list \<Rightarrow> real list" where
  "add_gains ns (SLeaf p) fimps = fimps"
| "add_gains ns (SNode p a b) fimps =
     add_gains ns b (add_gains ns a
       (fimps[nat (fid (ns ! p)) := fimps ! nat (fid (ns ! p)) + gain (ns ! p)]))"

text \<open>What growth keeps true of the arena and the frontier; \<open>sub0\<close> is the subset the root
  owns. On well-formed data every node but the root owns at least \<open>min_leaf_examples\<close>
  rows.\<close>

definition arena_inv :: "TreeRegressor \<Rightarrow> nat list \<Rightarrow> state \<Rightarrow> bool" where
  "arena_inv t sub0 s \<longleftrightarrow>
     0 < length (allSplits s) \<and> subset (allSplits s ! 0) = sub0 \<and>
     (\<forall>p<length (allSplits s). node_ok t (allSplits s ! p)) \<and>
     (\<forall>p<length (allSplits s). set (subset (allSplits s ! p)) \<subseteq> set sub0) \<and>
     (\<forall>p<length (allSplits s). 0 < p \<longrightarrow> ds_wf t \<and> rows_ok t sub0 \<longrightarrow>
        FLAGS_min_leaf_examples t \<le> int (length (subset (allSplits s ! p)))) \<and>
     linked t (allSplits s) \<and> frontier_ok s \<and> shaped (allSplits s)"

subsection \<open>A small data set\<close>

text \<open>Four rows, one narrow feature of four bins with one row each, targets
  \<open>0, 1, 10, 11\<close>, \<open>min_leaf_examples = 1\<close>, the mean as the leaf value, and a stream of
  draws that are all \<open>0\<close> (every coin flip with a positive rate succeeds).\<close>

definition four_rows_ds :: DataSet where
  "four_rows_ds =
     \<lparr>numExamples = 4, numFeatures = 1,
      features = [\<lparr>encoding = BYTE, transitions = [10, 20, 30], bvec = [0, 1, 2, 3], svec = []\<rparr>]\<rparr>"

definition four_rows :: TreeRegressor where
  "four_rows =
     \<lparr>ds = four_rows_ds, y_targets = [0, 1, 10, 11],
      getLeafVal = (\<lambda>sub ys. foldl (\<lambda>a i. a + ys ! i) 0 sub / real (length sub)),
      FLAGS_min_leaf_examples = 1, RAND_MAX = 2147483647, rand_stream = (\<lambda>n. 0)\<rparr>"

text \<open>The four rows with \<open>min_leaf_examples = 4\<close>: no split leaves four rows on both
  sides.\<close>

definition four_rows_min4 :: TreeRegressor where
  "four_rows_min4 = four_rows\<lparr>FLAGS_min_leaf_examples := 4\<rparr>"

text \<open>The states of a growth call on the four rows (both rates \<open>1\<close>): after the root
  candidate, after the root's expansion with children that are not terminal, and after
  its expansion with terminal children.\<close>

definition four_rows_root :: state where
  "four_rows_root =
     \<lparr>allSplits = [\<lparr>subset = [0, 1, 2, 3], fid = 0, fv = 1, gain = 100, selected = False,
                      left = None, right = None\<rparr>],
      frontiers = [0], rand_calls = 1\<rparr>"

definition four_rows_mid :: state where
  "four_rows_mid =
     \<lparr>allSplits =
        [\<lparr>subset = [0, 1, 2, 3], fid = 0, fv = 1, gain = 100, selected = True,
           left = Some 1, right = Some 2\<rparr>,
         \<lparr>subset = [0, 1], fid = 0, fv = 0, gain = 1 / 2, selected = False,
           left = None, right = None\<rparr>,
         \<lparr>subset = [2, 3], fid = 0, fv = 2, gain = 1 / 2, selected = False,
           left = None, right = None\<rparr>],
      frontiers = [1, 2], rand_calls = 3\<rparr>"

definition four_rows_last :: state where
  "four_rows_last =
     \<lparr>allSplits =
        [\<lparr>subset = [0, 1, 2, 3], fid = 0, fv = 1, gain = 100, selected = True,
           left = Some 1, right = Some 2\<rparr>,
         \<lparr>subset = [0, 1], fid = - 1, fv = 0, gain = 0, selected = False,
           left = None, right = None\<rparr>,
         \<lparr>subset = [2, 3], fid = - 1, fv = 0, gain = 0, selected = False,
           left = None, right = None\<rparr>],
      frontiers = [], rand_calls = 1\<rparr>"

text \<open>The state after \<^verbatim>\<open>getTree\<close> with three leaves on the four rows: two expansions,
  the second with terminal children; four draws went to the sampling of the rows.\<close>

definition four_rows_two :: state where
  "four_rows_two =
     \<lparr>allSplits =
        [\<lparr>subset = [0, 1, 2, 3], fid = 0, fv = 1, gain = 100, selected = True,
           left = Some 1, right = Some 2\<rparr>,
         \<lparr>subset = [0, 1], fid = 0, fv = 0, gain = 1 / 2, selected = True,
           left = Some 3, right = Some 4\<rparr>,
         \<lparr>subset = [2, 3], fid = 0, fv = 2, gain = 1 / 2, selected = False,
           left = None, right = None\<rparr>,
         \<lparr>subset = [0], fid = - 1, fv = 0, gain = 0, selected = False,
           left = None, right = None\<rparr>,
         \<lparr>subset = [1], fid = - 1, fv = 0, gain = 0, selected = False,
           left = None, right = None\<rparr>],
      frontiers = [2], rand_calls = 7\<rparr>"

section \<open>Theorems\<close>


section \<open>The split evaluator\<close>

lemma sum_list_take_Suc:
  "i < length xs \<Longrightarrow> sum_list (take (Suc i) xs) = sum_list (take i xs) + (xs ! i :: 'a :: comm_monoid_add)"
  by (simp add: take_Suc_conv_app_nth)

lemma sum_list_take_mono:
  fixes xs :: "int list"
  assumes "\<forall>c\<in>set xs. 0 \<le> c" "i \<le> j"
  shows "sum_list (take i xs) \<le> sum_list (take j xs)"
proof -
  have "take j xs = take i xs @ take (j - i) (drop i xs)"
    using assms(2) by (metis le_add_diff_inverse take_add)
  moreover have "0 \<le> sum_list (take (j - i) (drop i xs))"
    using assms(1) by (intro sum_list_nonneg) (meson in_set_dropD in_set_takeD)
  ultimately show ?thesis by simp
qed

lemma cntLeft_at_mono: "hist_wf h \<Longrightarrow> i \<le> j \<Longrightarrow> cntLeft_at h i \<le> cntLeft_at h j"
  by (simp add: cntLeft_at_def hist_wf_def sum_list_take_mono)

lemma best_upto_skip:
  assumes "best_upto m h i r" "\<not> (eligible m h i \<and> snd r < gain_at h i)" "0 \<le> snd r"
  shows "best_upto m h (Suc i) r"
  using assms unfolding best_upto_def
  by (auto simp: less_Suc_eq split: if_splits) 

lemma best_upto_take:
  assumes "best_upto m h i r" "eligible m h i" "snd r < gain_at h i" "0 \<le> snd r"
  shows "best_upto m h (Suc i) (int i, gain_at h i)"
  using assms unfolding best_upto_def
  by (auto simp: less_Suc_eq split: if_splits) 


lemma best_upto_extend:
  assumes "best_upto m h i r" "\<forall>j\<ge>i. \<not> eligible m h j" "i \<le> n"
  shows "best_upto m h n r"
proof -
  have e: "(\<exists>j<n. eligible m h j \<and> 0 < gain_at h j) = (\<exists>j<i. eligible m h j \<and> 0 < gain_at h j)"
    using assms(2,3) by (meson not_le order.strict_trans2)
  have a: "(\<forall>j<n. eligible m h j \<longrightarrow> gain_at h j \<le> snd r) = (\<forall>j<i. eligible m h j \<longrightarrow> gain_at h j \<le> snd r)"
    using assms(2,3) by (meson not_le order.strict_trans2)
  show ?thesis
  proof (cases "\<exists>j<i. eligible m h j \<and> 0 < gain_at h j")
    case True
    from assms(1) have b: "0 \<le> fst r \<and> nat (fst r) < i \<and> eligible m h (nat (fst r))
        \<and> snd r = gain_at h (nat (fst r))
        \<and> (\<forall>j<i. eligible m h j \<longrightarrow> gain_at h j \<le> snd r)
        \<and> (\<forall>j<nat (fst r). eligible m h j \<longrightarrow> gain_at h j < snd r)"
      unfolding best_upto_def if_P[OF True] .
    from b assms(3) have "nat (fst r) < n" by linarith
    with b show ?thesis
      unfolding best_upto_def e a if_P[OF True] by blast
  next
    case False
    with assms(1) show ?thesis
      unfolding best_upto_def e by simp
  qed
qed

lemma not_eligible_after:
  assumes "hist_wf h" "totalCnt h - cntLeft_at h i < m" "i \<le> j"
  shows "\<not> eligible m h j"
  using cntLeft_at_mono[OF assms(1,3)] assms(2) by (simp add: eligible_def)

lemma not_eligible_beyond: "int i \<ge> num h - 1 \<Longrightarrow> \<not> eligible m h i"
  by (simp add: eligible_def)

lemma code_gain:
  "lossBefore_of h - (- 1 * sumLeft_at h i * sumLeft_at h i / real_of_int (cntLeft_at h i)
      - 1 * (totalSum h - sumLeft_at h i) * (totalSum h - sumLeft_at h i)
          / real_of_int (totalCnt h - cntLeft_at h i)) = gain_at h i"
  by (simp add: gain_at_def lossAfter_at_def power2_eq_square)

lemma hist_loop_best:
  assumes wf: "hist_wf h"
  shows "cl = sum_list (take i (cnt h)) \<Longrightarrow> sl = sum_list (take i (sumy h)) \<Longrightarrow>
    best_upto m h i (bi, bg) \<Longrightarrow> 0 \<le> bg \<Longrightarrow> i \<le> nat (num h - 1) \<Longrightarrow>
    best_upto m h (nat (num h - 1)) (hist_loop m h (lossBefore_of h) i cl sl bg bi)
    \<and> 0 \<le> snd (hist_loop m h (lossBefore_of h) i cl sl bg bi)"
proof (induction "nat (num h - 1) - i" arbitrary: i cl sl bg bi)
  case 0
  then have "\<not> int i < num h - 1" by linarith
  then have "hist_loop m h (lossBefore_of h) i cl sl bg bi = (bi, bg)"
    by (subst hist_loop.simps) simp
  moreover from 0 have "i = nat (num h - 1)" by linarith
  ultimately show ?case
    using "0.prems" by simp
next
  case (Suc d)
  then have lt: "int i < num h - 1" by linarith
  then have il: "i < length (cnt h)" "i < length (sumy h)"
    using wf by (auto simp: hist_wf_def)
  have cl': "cl + cnt h ! i = cntLeft_at h i"
    using Suc.prems(1) il by (simp add: cntLeft_at_def sum_list_take_Suc)
  have sl': "sl + sumy h ! i = sumLeft_at h i"
    using Suc.prems(2) il by (simp add: sumLeft_at_def sum_list_take_Suc)
  have d: "d = nat (num h - 1) - Suc i" using Suc.hyps(2) by linarith
  have le: "Suc i \<le> nat (num h - 1)" using lt by linarith
  have cS: "cntLeft_at h i = sum_list (take (Suc i) (cnt h))" by (simp add: cntLeft_at_def)
  have sS: "sumLeft_at h i = sum_list (take (Suc i) (sumy h))" by (simp add: sumLeft_at_def)
  note IH = Suc.hyps(1)[OF d cS sS _ _ le]
  let ?r = "hist_loop m h (lossBefore_of h) i cl sl bg bi"
  consider (small) "cntLeft_at h i < m"
    | (brk) "\<not> cntLeft_at h i < m" "totalCnt h - cntLeft_at h i < m"
    | (better) "\<not> cntLeft_at h i < m" "\<not> totalCnt h - cntLeft_at h i < m" "bg < gain_at h i"
    | (worse) "\<not> cntLeft_at h i < m" "\<not> totalCnt h - cntLeft_at h i < m" "\<not> bg < gain_at h i"
    by blast
  then show ?case
  proof cases
    case small
    have step: "?r = hist_loop m h (lossBefore_of h) (Suc i) (cntLeft_at h i) (sumLeft_at h i) bg bi"
      by (subst hist_loop.simps) (simp only: Let_def cl' sl' lt small if_True)
    from small have "\<not> eligible m h i" by (simp add: eligible_def)
    then have "best_upto m h (Suc i) (bi, bg)"
      using best_upto_skip[OF Suc.prems(3)] Suc.prems(4) by simp
    from IH[OF this Suc.prems(4)] show ?thesis
      unfolding step .
  next
    case brk
    have step: "?r = (bi, bg)"
      by (subst hist_loop.simps) (simp only: Let_def cl' sl' lt brk if_True if_False)
    from brk have "\<forall>j\<ge>i. \<not> eligible m h j"
      using not_eligible_after[OF wf] by blast
    then have "best_upto m h (nat (num h - 1)) (bi, bg)"
      using best_upto_extend[OF Suc.prems(3)] Suc.prems(5) by blast
    then show ?thesis
      using Suc.prems(4) unfolding step by simp
  next
    case better
    have step: "?r = hist_loop m h (lossBefore_of h) (Suc i) (cntLeft_at h i) (sumLeft_at h i)
        (gain_at h i) (int i)"
      by (subst hist_loop.simps) (simp only: Let_def cl' sl' code_gain lt better if_True if_False)
    from better lt have el: "eligible m h i" by (simp add: eligible_def)
    have "best_upto m h (Suc i) (int i, gain_at h i)"
      using best_upto_take[OF Suc.prems(3) el] better(3) Suc.prems(4) by simp
    moreover have "0 \<le> gain_at h i" using better(3) Suc.prems(4) by linarith
    ultimately show ?thesis
      using IH[of "int i" "gain_at h i"] unfolding step by blast
  next
    case worse
    have step: "?r = hist_loop m h (lossBefore_of h) (Suc i) (cntLeft_at h i) (sumLeft_at h i) bg bi"
      by (subst hist_loop.simps) (simp only: Let_def cl' sl' code_gain lt worse if_True if_False)
    from worse have "best_upto m h (Suc i) (bi, bg)"
      using best_upto_skip[OF Suc.prems(3)] Suc.prems(4) by simp
    from IH[OF this Suc.prems(4)] show ?thesis
      unfolding step .
  qed
qed

lemma best_upto_0: "best_upto m h 0 (- 1, 0)"
  by (simp add: best_upto_def)

lemma lossBefore_code: "- 1 * totalSum h * totalSum h / real_of_int (totalCnt h) = lossBefore_of h"
  by (simp add: lossBefore_of_def power2_eq_square)

lemma getBestSplitFromHistogram_best_upto:
  assumes "hist_wf h" "1 \<le> num h"
  shows "\<exists>r. getBestSplitFromHistogram m h = Inr r \<and> best_upto m h (nat (num h - 1)) r \<and> 0 \<le> snd r"
proof -
  have "getBestSplitFromHistogram m h = Inr (hist_loop m h (lossBefore_of h) 0 0 0 0 (- 1))"
    using assms(2) by (simp only: getBestSplitFromHistogram_def Let_def lossBefore_code) simp
  then show ?thesis
    using hist_loop_best[OF assms(1), of 0 0 0 m "- 1" 0] by (simp add: best_upto_0)
qed










section \<open>Sampling and the entry check of getTree\<close>

lemma int32_id: "0 \<le> x \<Longrightarrow> x < 2 ^ 31 \<Longrightarrow> int32 x = x"
  by (simp add: int32_def)

text \<open>When the product \<open>min_leaf_examples * numLeaves\<close> fits an \<^verbatim>\<open>int\<close>, a sample with fewer
  rows stops \<^verbatim>\<open>getTree\<close> at its \<^verbatim>\<open>CHECK\<close>: the result is the abort, no tree is returned
  and no candidate is built.\<close>

lemma getTree_small_sample_in_range:
  assumes "int (length (fst (sample_loop t exampleSamplingRate 0 ([], s))))
             < FLAGS_min_leaf_examples t * numLeaves"
    and "FLAGS_min_leaf_examples t * numLeaves < 2 ^ 31"
  shows "getTree t numLeaves exampleSamplingRate featureSamplingRate fimps s
           = Some (Inl (CHECK_failed Sampled_subset_size))"
proof -
  have "(2::int) ^ 31 \<le> 2 ^ 64" by simp
  with assms have p0: "0 \<le> FLAGS_min_leaf_examples t * numLeaves"
    and "FLAGS_min_leaf_examples t * numLeaves < 2 ^ 64"
    by linarith+
  then have "as_size_t (FLAGS_min_leaf_examples t * numLeaves) = FLAGS_min_leaf_examples t * numLeaves"
    by (simp add: as_size_t_def)
  with assms(1) int32_id[OF p0 assms(2)] show ?thesis
    by (cases "sample_loop t exampleSamplingRate 0 ([], s)") (simp add: getTree_def)
qed

lemma four_rows_sample: "sample_loop four_rows 1 0 ([], fresh) = ([0, 1, 2, 3], fresh\<lparr>rand_calls := 4\<rparr>)"
  by code_simp

lemma getTree_five_leaves_aborts:
  "getTree four_rows 5 1 1 [0] fresh = Some (Inl (CHECK_failed Sampled_subset_size))"
  by code_simp

text \<open>
  Claim C7 fails on the code when the product overflows. On the four rows with
  \<open>min_leaf_examples = 4\<close> and \<open>numLeaves = 2 ^ 30\<close>, all four rows are sampled, which is
  fewer than \<open>min_leaf_examples * numLeaves = 2 ^ 32\<close>; the \<^verbatim>\<open>int\<close> product wraps around
  to \<open>0\<close>, the \<^verbatim>\<open>CHECK\<close> passes, and \<^verbatim>\<open>getTree\<close> returns a tree of one leaf.
\<close>

theorem getTree_overflowed_product_returns_leaf:
  "sample_loop four_rows_min4 1 0 ([], fresh) = ([0, 1, 2, 3], fresh\<lparr>rand_calls := 4\<rparr>)
   \<and> int (length [0::nat, 1, 2, 3]) < FLAGS_min_leaf_examples four_rows_min4 * 1073741824
   \<and> int32 (FLAGS_min_leaf_examples four_rows_min4 * 1073741824) = 0
   \<and> getTree four_rows_min4 1073741824 1 1 [0] fresh =
       Some (Inr (Some (LeafNode (11 / 2)), [0],
                  \<lparr>allSplits = [SplitNode_new [0, 1, 2, 3]], frontiers = [0], rand_calls = 5\<rparr>))"
proof -
  have 1: "sample_loop four_rows_min4 1 0 ([], fresh) = ([0, 1, 2, 3], fresh\<lparr>rand_calls := 4\<rparr>)"
    by code_simp
  have 2: "int (length [0::nat, 1, 2, 3]) < FLAGS_min_leaf_examples four_rows_min4 * 1073741824"
    by code_simp
  have 3: "int32 (FLAGS_min_leaf_examples four_rows_min4 * 1073741824) = 0"
    by code_simp
  have 4: "getTree four_rows_min4 1073741824 1 1 [0] fresh =
       Some (Inr (Some (LeafNode (11 / 2)), [0],
                  \<lparr>allSplits = [SplitNode_new [0, 1, 2, 3]], frontiers = [0], rand_calls = 5\<rparr>))"
    by code_simp
  from 1 2 3 4 show ?thesis by blast
qed


text \<open>
  Claim C10. \<^verbatim>\<open>biasedCoinFlip p\<close> is true exactly when the draw is below
  \<open>p * RAND_MAX\<close>; at \<open>p = 1\<close> that is when the draw is below \<^verbatim>\<open>RAND_MAX\<close>, so a draw
  equal to \<^verbatim>\<open>RAND_MAX\<close> gives false. With both rates \<open>1\<close> there are streams of draws
  under which a row is left out of the sample (row 2 of the four-row data set, when the
  third draw is \<^verbatim>\<open>RAND_MAX\<close>) and under which the only feature is skipped and the
  candidate is left with \<open>fid = - 1\<close> and gain \<open>0\<close>.
\<close>

theorem biasedCoinFlip_rate_one:
  "fst (biasedCoinFlip t p s)
     = (real_of_int (rand_stream t (rand_calls s)) < p * real_of_int (RAND_MAX t))
   \<and> fst (biasedCoinFlip t 1 s) = (rand_stream t (rand_calls s) < RAND_MAX t)
   \<and> fst (sample_loop (four_rows\<lparr>rand_stream := \<lambda>n. if n = 2 then RAND_MAX four_rows else 0\<rparr>)
            1 0 ([], fresh)) = [0, 1, 3]
   \<and> getBestSplit (four_rows\<lparr>rand_stream := \<lambda>n. RAND_MAX four_rows\<rparr>) [0, 1, 2, 3] 1 False fresh
       = Inr (0, \<lparr>allSplits = [SplitNode_new [0, 1, 2, 3]], frontiers = [0], rand_calls = 1\<rparr>)"
proof -
  have 1: "fst (biasedCoinFlip t p s)
     = (real_of_int (rand_stream t (rand_calls s)) < p * real_of_int (RAND_MAX t))"
    by (simp add: biasedCoinFlip_def)
  have 2: "fst (biasedCoinFlip t 1 s) = (rand_stream t (rand_calls s) < RAND_MAX t)"
    by (simp add: biasedCoinFlip_def)
  have 3: "fst (sample_loop (four_rows\<lparr>rand_stream := \<lambda>n. if n = 2 then RAND_MAX four_rows else 0\<rparr>)
            1 0 ([], fresh)) = [0, 1, 3]"
    by code_simp
  have 4: "getBestSplit (four_rows\<lparr>rand_stream := \<lambda>n. RAND_MAX four_rows\<rparr>) [0, 1, 2, 3] 1 False fresh
       = Inr (0, \<lparr>allSplits = [SplitNode_new [0, 1, 2, 3]], frontiers = [0], rand_calls = 1\<rparr>)"
    by code_simp
  from 1 2 3 4 show ?thesis by blast
qed


section \<open>Candidate construction\<close>

text \<open>The feature loop changes neither the arena nor the frontier, and keeps its best triple
  well-formed; so \<^verbatim>\<open>getBestSplit\<close> appends exactly one well-formed, unselected,
  childless candidate, which it puts on the frontier unless it is terminal.\<close>

lemma biasedCoinFlip_state:
  "allSplits (snd (biasedCoinFlip t p s)) = allSplits s"
  "frontiers (snd (biasedCoinFlip t p s)) = frontiers s"
  by (simp_all add: biasedCoinFlip_def)

lemma feature_step_state:
  assumes "feature_step t sub r ts k acc = Inr acc'"
  shows "allSplits (snd acc') = allSplits (snd acc) \<and> frontiers (snd acc') = frontiers (snd acc)"
  using assms
  by (auto simp: feature_step_def Let_def biasedCoinFlip_def
      split: if_splits prod.splits sum.splits)

lemma feature_loop_state:
  "feature_loop t sub r ts k acc = Inr acc' \<Longrightarrow>
     allSplits (snd acc') = allSplits (snd acc) \<and> frontiers (snd acc') = frontiers (snd acc)"
proof (induction t sub r ts k acc rule: feature_loop.induct)
  case (1 t sub r ts k acc)
  show ?case
  proof (cases "int k < numFeatures (ds t)")
    case True
    with "1.prems" obtain acc1 where st: "feature_step t sub r ts k acc = Inr acc1"
      and lp: "feature_loop t sub r ts (Suc k) acc1 = Inr acc'"
      by (subst (asm) feature_loop.simps) (auto split: sum.splits)
    from "1.IH"[OF True st lp] feature_step_state[OF st] show ?thesis by simp
  next
    case False
    with "1.prems" have "acc' = acc"
      by (subst (asm) feature_loop.simps) simp
    then show ?thesis by simp
  qed
qed


lemma buildHistogram_frame:
  "num (buildHistogram ys sub fvec h) = num h \<and> totalCnt (buildHistogram ys sub fvec h) = totalCnt h
   \<and> totalSum (buildHistogram ys sub fvec h) = totalSum h
   \<and> length (cnt (buildHistogram ys sub fvec h)) = length (cnt h)
   \<and> length (sumy (buildHistogram ys sub fvec h)) = length (sumy h)"
  by (induction sub arbitrary: h) (simp_all add: Let_def)

lemma buildHistogram_nonneg:
  "\<forall>c\<in>set (cnt h). 0 \<le> c \<Longrightarrow> \<forall>c\<in>set (cnt (buildHistogram ys sub fvec h)). 0 \<le> c"
proof (induction sub arbitrary: h)
  case Nil
  then show ?case by simp
next
  case (Cons i sub)
  let ?v = "unat (fvec ! i)"
  have "\<forall>c\<in>set ((cnt h)[?v := cnt h ! ?v + 1]). 0 \<le> c"
  proof (cases "?v < length (cnt h)")
    case True
    then have "0 \<le> cnt h ! ?v + 1" using Cons.prems by (simp add: add_nonneg_nonneg)
    moreover have "set ((cnt h)[?v := cnt h ! ?v + 1]) \<subseteq> insert (cnt h ! ?v + 1) (set (cnt h))"
      by (rule set_update_subset_insert)
    ultimately show ?thesis using Cons.prems by blast
  next
    case False
    then have "length (cnt h) \<le> ?v" by linarith
    then have "(cnt h)[?v := cnt h ! ?v + 1] = cnt h" by (rule list_update_beyond)
    then show ?thesis using Cons.prems by simp
  qed
  then show ?case
    using Cons.IH[of "h\<lparr>cnt := (cnt h)[?v := cnt h ! ?v + 1],
                 sumy := (sumy h)[?v := sumy h ! ?v + ys ! i]\<rparr>"]
    by (simp add: Let_def)
qed

lemma buildHistogram_cnt:
  "\<forall>i\<in>set sub. unat (fvec ! i) < length (cnt h) \<Longrightarrow> v < length (cnt h) \<Longrightarrow>
   cnt (buildHistogram ys sub fvec h) ! v
     = cnt h ! v + int (length (filter (\<lambda>i. unat (fvec ! i) = v) sub))"
proof (induction sub arbitrary: h)
  case Nil
  then show ?case by simp
next
  case (Cons i sub)
  let ?w = "unat (fvec ! i)"
  let ?h = "h\<lparr>cnt := (cnt h)[?w := cnt h ! ?w + 1], sumy := (sumy h)[?w := sumy h ! ?w + ys ! i]\<rparr>"
  have "cnt (buildHistogram ys sub fvec ?h) ! v
     = cnt ?h ! v + int (length (filter (\<lambda>i. unat (fvec ! i) = v) sub))"
    using Cons.prems by (intro Cons.IH) simp_all
  then show ?case
    using Cons.prems by (simp add: Let_def nth_list_update)
qed

lemma length_filter_less_Suc:
  "length (filter (\<lambda>i. c i < Suc k) sub)
     = length (filter (\<lambda>i. c i < k) sub) + length (filter (\<lambda>i. c i = (k::nat)) sub)"
  by (induction sub) (auto simp: less_Suc_eq)

lemma sum_take_counts:
  fixes xs :: "int list"
  assumes "\<forall>v<length xs. xs ! v = int (length (filter (\<lambda>i. c i = v) sub))"
  shows "k \<le> length xs \<Longrightarrow> sum_list (take k xs) = int (length (filter (\<lambda>i. c i < k) sub))"
proof (induction k)
  case 0
  then show ?case by simp
next
  case (Suc k)
  then have "k < length xs" by simp
  then show ?case
    using Suc assms by (simp add: take_Suc_conv_app_nth length_filter_less_Suc)
qed


lemma built_hist_wf:
  "hist_wf (buildHistogram ys sub fvec (Histogram_new (int n) c ts))"
  using buildHistogram_frame[where h = "Histogram_new (int n) c ts" and ys = ys and sub = sub
      and fvec = fvec]
    buildHistogram_nonneg[where h = "Histogram_new (int n) c ts" and ys = ys and sub = sub
      and fvec = fvec]
  by (simp add: hist_wf_def Histogram_new_def)

lemma built_hist_cntLeft:
  assumes "\<forall>i\<in>set sub. unat (fvec ! i) < n" "idx < n"
  shows "cntLeft_at (buildHistogram ys sub fvec (Histogram_new (int n) c ts)) idx
     = int (length (filter (\<lambda>i. unat (fvec ! i) \<le> idx) sub))"
proof -
  let ?hz = "Histogram_new (int n) c ts"
  let ?h = "buildHistogram ys sub fvec ?hz"
  have len: "length (cnt ?h) = n"
    using buildHistogram_frame[where h = ?hz and ys = ys and sub = sub and fvec = fvec]
    by (simp add: Histogram_new_def)
  have "\<forall>v<length (cnt ?h). cnt ?h ! v = int (length (filter (\<lambda>i. unat (fvec ! i) = v) sub))"
  proof (intro allI impI)
    fix v assume "v < length (cnt ?h)"
    then have v: "v < length (cnt ?hz)" using len by (simp add: Histogram_new_def)
    have "\<forall>i\<in>set sub. unat (fvec ! i) < length (cnt ?hz)"
      using assms(1) by (simp add: Histogram_new_def)
    from buildHistogram_cnt[OF this v, where ys = ys] v
    show "cnt ?h ! v = int (length (filter (\<lambda>i. unat (fvec ! i) = v) sub))"
      by (simp add: Histogram_new_def)
  qed
  from sum_take_counts[OF this, of "Suc idx"] assms(2) len
  have "sum_list (take (Suc idx) (cnt ?h)) = int (length (filter (\<lambda>i. unat (fvec ! i) < Suc idx) sub))"
    by simp
  then show ?thesis
    by (simp add: cntLeft_at_def less_Suc_eq_le)
qed

lemma best_upto_pos:
  assumes "best_upto m h n r" "0 < snd r"
  shows "0 \<le> fst r \<and> nat (fst r) < n \<and> eligible m h (nat (fst r))"
proof (cases "\<exists>j<n. eligible m h j \<and> 0 < gain_at h j")
  case True
  from assms(1) show ?thesis
    unfolding best_upto_def if_P[OF True] by blast
next
  case False
  from assms(1) have "snd r = 0"
    unfolding best_upto_def if_not_P[OF False] by blast
  with assms(2) show ?thesis by simp
qed

lemma getBestSplitFromHistogram_built:
  assumes "getBestSplitFromHistogram m
             (buildHistogram ys sub fvec (Histogram_new (int (Suc n)) (int (length sub)) ts)) = Inr (v, g)"
  shows "0 \<le> g \<and> (0 < g \<longrightarrow> 0 \<le> v \<and> v < int n \<and>
      ((\<forall>i\<in>set sub. unat (fvec ! i) \<le> n) \<longrightarrow>
         m \<le> int (length (filter (\<lambda>i. unat (fvec ! i) \<le> nat v) sub)) \<and>
         m \<le> int (length (filter (\<lambda>i. \<not> unat (fvec ! i) \<le> nat v) sub))))"
proof -
  let ?h = "buildHistogram ys sub fvec (Histogram_new (int (Suc n)) (int (length sub)) ts)"
  have fr: "num ?h = int (Suc n)" "totalCnt ?h = int (length sub)"
    using buildHistogram_frame[where h = "Histogram_new (int (Suc n)) (int (length sub)) ts"
        and ys = ys and sub = sub and fvec = fvec]
    by (simp_all add: Histogram_new_def)
  have "1 \<le> num ?h" unfolding fr by simp
  from getBestSplitFromHistogram_best_upto[OF built_hist_wf this, of m] assms
  have b: "best_upto m ?h (nat (num ?h - 1)) (v, g)" and nn: "0 \<le> g"
    by auto
  have n1: "nat (num ?h - 1) = n" unfolding fr by simp
  have main: "0 \<le> v \<and> v < int n \<and>
      ((\<forall>i\<in>set sub. unat (fvec ! i) \<le> n) \<longrightarrow>
         m \<le> int (length (filter (\<lambda>i. unat (fvec ! i) \<le> nat v) sub)) \<and>
         m \<le> int (length (filter (\<lambda>i. \<not> unat (fvec ! i) \<le> nat v) sub)))" if pos: "0 < g"
  proof -
    from best_upto_pos[OF b] pos have v0: "0 \<le> v" and vn: "nat v < nat (num ?h - 1)"
      and el: "eligible m ?h (nat v)" by simp_all
    from vn have v: "nat v < n" unfolding n1 .
    with v0 have vi: "v < int n" by linarith
    have sz: "m \<le> int (length (filter (\<lambda>i. unat (fvec ! i) \<le> nat v) sub)) \<and>
         m \<le> int (length (filter (\<lambda>i. \<not> unat (fvec ! i) \<le> nat v) sub))"
      if rng: "\<forall>i\<in>set sub. unat (fvec ! i) \<le> n"
    proof -
      from rng have r': "\<forall>i\<in>set sub. unat (fvec ! i) < Suc n" by (simp add: less_Suc_eq_le)
      from v have "nat v < Suc n" by simp
      from built_hist_cntLeft[OF r' this]
      have c: "cntLeft_at ?h (nat v) = int (length (filter (\<lambda>i. unat (fvec ! i) \<le> nat v) sub))" .
      have "length (filter (\<lambda>i. unat (fvec ! i) \<le> nat v) sub)
          + length (filter (\<lambda>i. \<not> unat (fvec ! i) \<le> nat v) sub) = length sub"
        by (rule sum_length_filter_compl)
      then have "int (length (filter (\<lambda>i. \<not> unat (fvec ! i) \<le> nat v) sub))
          = totalCnt ?h - cntLeft_at ?h (nat v)"
        unfolding fr c by linarith
      with el c show ?thesis
        unfolding eligible_def by simp
    qed
    from v0 vi sz show ?thesis by blast
  qed
  from nn main show ?thesis by blast
qed


lemma new_best_ok:
  fixes fvec :: "'a::len word list"
  assumes g: "getBestSplitFromHistogram (FLAGS_min_leaf_examples t)
      (buildHistogram ys sub fvec
         (Histogram_new (int (length (transitions f)) + 1) (int (length sub)) ts)) = Inr (v, g)"
    and pos: "0 < g" and k: "k < length (features (ds t))" and f: "features (ds t) ! k = f"
    and kn: "int k < numFeatures (ds t)" and ne: "encoding f \<noteq> EMPTY"
    and co: "\<forall>i. code_of f i = unat (fvec ! i)"
  shows "split_ok t sub (int k, v, g)"
proof -
  have "int (length (transitions f)) + 1 = int (Suc (length (transitions f)))" by simp
  from getBestSplitFromHistogram_built[OF g[unfolded this]] pos
  have v: "0 \<le> v" "v < int (length (transitions f))"
    and sz: "(\<forall>i\<in>set sub. unat (fvec ! i) \<le> length (transitions f)) \<longrightarrow>
         FLAGS_min_leaf_examples t \<le> int (length (filter (\<lambda>i. unat (fvec ! i) \<le> nat v) sub)) \<and>
         FLAGS_min_leaf_examples t \<le> int (length (filter (\<lambda>i. \<not> unat (fvec ! i) \<le> nat v) sub))"
    by blast+
  have "\<forall>i\<in>set sub. unat (fvec ! i) \<le> length (transitions f)" if "ds_wf t" "rows_ok t sub"
  proof
    fix i assume "i \<in> set sub"
    with that(2) have "i < nat (numExamples (ds t))" by (auto simp: rows_ok_def)
    moreover have "f \<in> set (features (ds t))" using k f by auto
    ultimately have "code_of f i \<le> length (transitions f)"
      using that(1) ne unfolding ds_wf_def by blast
    then show "unat (fvec ! i) \<le> length (transitions f)" using co by simp
  qed
  with sz have "ds_wf t \<and> rows_ok t sub \<longrightarrow>
         FLAGS_min_leaf_examples t \<le> int (length (filter (\<lambda>i. code_of f i \<le> nat v) sub)) \<and>
         FLAGS_min_leaf_examples t \<le> int (length (filter (\<lambda>i. \<not> code_of f i \<le> nat v) sub))"
    using co by simp
  with v pos k f kn ne show ?thesis
    by (simp add: split_ok_def)
qed

lemma feature_step_split_ok:
  assumes ok: "split_ok t sub (fst acc)" and st: "feature_step t sub r ts k acc = Inr acc'"
    and kn: "int k < numFeatures (ds t)"
  shows "split_ok t sub (fst acc')"
proof -
  from st have k: "k < length (features (ds t))"
    by (auto simp: feature_step_def split: if_splits)
  define f where "f = features (ds t) ! k"
  from ok have nn: "0 \<le> snd (snd (fst acc))" by (simp add: split_ok_def)
  show ?thesis
  proof (cases "encoding f = EMPTY \<or> \<not> fst (biasedCoinFlip t r (snd acc))")
    case True
    with st k have "fst acc' = fst acc"
      by (auto simp: feature_step_def Let_def f_def split: if_splits prod.splits)
    with ok show ?thesis by simp
  next
    case False
    then have ne: "encoding f \<noteq> EMPTY" and coin: "fst (biasedCoinFlip t r (snd acc))" by auto
    show ?thesis
    proof (cases "encoding f = BYTE")
      case True
      with st k ne coin obtain v g where
        g: "getBestSplitFromHistogram (FLAGS_min_leaf_examples t)
          (buildHistogram (y_targets t) sub (bvec f)
             (Histogram_new (int (length (transitions f)) + 1) (int (length sub)) ts)) = Inr (v, g)"
        and r: "fst acc' = (if g > snd (snd (fst acc)) then (int k, v, g) else fst acc)"
        by (auto simp: feature_step_def Let_def f_def split: if_splits prod.splits sum.splits)
      have co: "\<forall>i. code_of f i = unat (bvec f ! i)" using True by (simp add: code_of_def)
      show ?thesis
      proof (cases "g > snd (snd (fst acc))")
        case True
        with nn have "0 < g" by linarith
        from new_best_ok[OF g this k _ kn ne co] r True show ?thesis by (simp add: f_def)
      next
        case False
        with r ok show ?thesis by simp
      qed
    next
      case False
      with ne have sh: "encoding f = SHORT" by (cases "encoding f") auto
      with st k ne coin obtain v g where
        g: "getBestSplitFromHistogram (FLAGS_min_leaf_examples t)
          (buildHistogram (y_targets t) sub (svec f)
             (Histogram_new (int (length (transitions f)) + 1) (int (length sub)) ts)) = Inr (v, g)"
        and r: "fst acc' = (if g > snd (snd (fst acc)) then (int k, v, g) else fst acc)"
        by (auto simp: feature_step_def Let_def f_def split: if_splits prod.splits sum.splits)
      have co: "\<forall>i. code_of f i = unat (svec f ! i)" using sh by (simp add: code_of_def)
      show ?thesis
      proof (cases "g > snd (snd (fst acc))")
        case True
        with nn have "0 < g" by linarith
        from new_best_ok[OF g this k _ kn ne co] r True show ?thesis by (simp add: f_def)
      next
        case False
        with r ok show ?thesis by simp
      qed
    qed
  qed
qed

lemma feature_loop_split_ok:
  "split_ok t sub (fst acc) \<Longrightarrow> feature_loop t sub r ts k acc = Inr acc' \<Longrightarrow>
     split_ok t sub (fst acc')"
proof (induction t sub r ts k acc rule: feature_loop.induct)
  case (1 t sub r ts k acc)
  show ?case
  proof (cases "int k < numFeatures (ds t)")
    case True
    with "1.prems"(2) obtain acc1 where st: "feature_step t sub r ts k acc = Inr acc1"
      and lp: "feature_loop t sub r ts (Suc k) acc1 = Inr acc'"
      by (subst (asm) feature_loop.simps) (auto split: sum.splits)
    from "1.IH"[OF True st _ lp] feature_step_split_ok[OF "1.prems"(1) st True]
    show ?thesis by simp
  next
    case False
    with "1.prems"(2) have "acc' = acc"
      by (subst (asm) feature_loop.simps) simp
    with "1.prems"(1) show ?thesis by simp
  qed
qed


lemma unat_word_of_int_le: "0 \<le> x \<Longrightarrow> unat (word_of_int x :: 16 word) \<le> nat x"
  by (metis le_unat_uoi nle_le of_nat_nat)

lemma unat_word_of_int_16: "0 \<le> x \<Longrightarrow> x < 65536 \<Longrightarrow> unat (word_of_int x :: 16 word) = nat x"
proof -
  assume a: "0 \<le> x" "x < 65536"
  have "uint (word_of_int x :: 16 word) = x mod 2 ^ 16"
    by (simp add: uint_word_of_int take_bit_eq_mod)
  also have "\<dots> = x" using a by simp
  finally show ?thesis by (simp add: unat_eq_nat_uint)
qed

lemma split_ok_node_ok:
  assumes "split_ok t sub (bf, bv, bg)"
  shows "node_ok t ((SplitNode_new sub)\<lparr>fid := bf, fv := word_of_int bv, gain := bg\<rparr>)"
proof -
  let ?n = "(SplitNode_new sub)\<lparr>fid := bf, fv := word_of_int bv, gain := bg\<rparr>"
  let ?f = "features (ds t) ! nat bf"
  from assms have nn: "0 \<le> bg" and z: "bg = 0 \<longrightarrow> bf = - 1"
    by (simp_all add: split_ok_def)
  have pos: "0 \<le> bf \<and> bf < numFeatures (ds t) \<and> nat bf < length (features (ds t)) \<and>
        encoding ?f \<noteq> EMPTY \<and> unat (word_of_int bv :: 16 word) < length (transitions ?f) \<and>
        (ds_wf t \<and> rows_ok t sub \<longrightarrow>
           FLAGS_min_leaf_examples t \<le> int (length (filter (goes_left t ?n) sub)) \<and>
           FLAGS_min_leaf_examples t \<le> int (length (filter (\<lambda>i. \<not> goes_left t ?n i) sub)))"
    if p: "0 < bg"
  proof -
    from assms p have a: "0 \<le> bf" "bf < numFeatures (ds t)" "nat bf < length (features (ds t))"
      "encoding ?f \<noteq> EMPTY" "0 \<le> bv" "bv < int (length (transitions ?f))"
      and sz: "ds_wf t \<and> rows_ok t sub \<longrightarrow>
           FLAGS_min_leaf_examples t \<le> int (length (filter (\<lambda>i. code_of ?f i \<le> nat bv) sub)) \<and>
           FLAGS_min_leaf_examples t \<le> int (length (filter (\<lambda>i. \<not> code_of ?f i \<le> nat bv) sub))"
      by (simp_all add: split_ok_def)
    from unat_word_of_int_le[OF a(5)] a(5,6)
    have u: "unat (word_of_int bv :: 16 word) < length (transitions ?f)" by linarith
    have "FLAGS_min_leaf_examples t \<le> int (length (filter (goes_left t ?n) sub)) \<and>
           FLAGS_min_leaf_examples t \<le> int (length (filter (\<lambda>i. \<not> goes_left t ?n i) sub))"
      if w: "ds_wf t" "rows_ok t sub"
    proof -
      have "?f \<in> set (features (ds t))" using a(3) by simp
      with w(1) a(4) have "length (transitions ?f) \<le> 65535" unfolding ds_wf_def by blast
      with a(6) have "bv < 65536" by linarith
      from unat_word_of_int_16[OF a(5) this]
      have "goes_left t ?n = (\<lambda>i. code_of ?f i \<le> nat bv)"
        by (simp add: goes_left_def fun_eq_iff)
      with sz w show ?thesis by simp
    qed
    with a u show ?thesis by blast
  qed
  show ?thesis
    unfolding node_ok_def using nn z pos by (simp add: SplitNode_new_def)
qed

lemma node_ok_new: "node_ok t (SplitNode_new sub)"
  by (simp add: node_ok_def SplitNode_new_def)

lemma split_ok_init: "split_ok t sub (- 1, 0, 0)"
  by (simp add: split_ok_def)

lemma getBestSplit_effect:
  assumes "getBestSplit t sub r terminal s = Inr (p, s')"
  shows "p = length (allSplits s) \<and>
    (\<exists>n. allSplits s' = allSplits s @ [n] \<and> new_leaf t sub n \<and> (terminal \<longrightarrow> gain n = 0)) \<and>
    frontiers s' = (if terminal then frontiers s else frontiers s @ [p])"
proof (cases terminal)
  case True
  with assms show ?thesis
    by (auto simp: getBestSplit_def new_leaf_def node_ok_new) (simp_all add: SplitNode_new_def)
next
  case False
  let ?ts = "foldl (\<lambda>a i. a + y_targets t ! i) 0 sub"
  from assms False obtain bf bv bg s1 where
    lp: "feature_loop t sub r ?ts 0 ((- 1, 0, 0), s) = Inr ((bf, bv, bg), s1)"
    and p: "p = length (allSplits s1)"
    and s': "s' = s1\<lparr>frontiers := frontiers s1 @ [length (allSplits s1)],
                        allSplits := allSplits s1 @
                          [(SplitNode_new sub)\<lparr>fid := bf, fv := word_of_int bv, gain := bg\<rparr>]\<rparr>"
    by (auto simp: getBestSplit_def Let_def split: sum.splits prod.splits)
  from feature_loop_state[OF lp] have st: "allSplits s1 = allSplits s" "frontiers s1 = frontiers s"
    by simp_all
  from feature_loop_split_ok[OF _ lp] split_ok_init have "split_ok t sub (bf, bv, bg)" by simp
  from split_ok_node_ok[OF this]
  have "new_leaf t sub ((SplitNode_new sub)\<lparr>fid := bf, fv := word_of_int bv, gain := bg\<rparr>)"
    by (simp add: new_leaf_def) (simp add: SplitNode_new_def)
  with p s' st False show ?thesis by simp
qed

lemma split_filter:
  "split sub lr fvec v
     = (fst lr @ filter (\<lambda>i. unat (fvec ! i) \<le> unat v) sub,
        snd lr @ filter (\<lambda>i. \<not> unat (fvec ! i) \<le> unat v) sub)"
  by (induction sub arbitrary: lr) simp_all

lemma goes_left_fun:
  "goes_left t n = (\<lambda>i. code_of (features (ds t) ! nat (fid n)) i \<le> unat (fv n))"
  by (simp add: fun_eq_iff goes_left_def)

lemma splitExamples_filter:
  assumes "node_ok t n" "0 < gain n"
  shows "splitExamples t n ([], [])
     = Inr (filter (goes_left t n) (subset n), filter (\<lambda>i. \<not> goes_left t n i) (subset n))"
proof -
  let ?f = "features (ds t) ! nat (fid n)"
  from assms have a: "0 \<le> fid n" "nat (fid n) < length (features (ds t))" "encoding ?f \<noteq> EMPTY"
    by (simp_all add: node_ok_def)
  then have b: "\<not> (fid n < 0 \<or> int (length (features (ds t))) \<le> fid n)" by linarith
  show ?thesis
  proof (cases "encoding ?f = BYTE")
    case True
    then show ?thesis
      unfolding splitExamples_def if_not_P[OF b]
      by (simp add: Let_def split_filter goes_left_fun code_of_def)
  next
    case False
    with a(3) have "encoding ?f = SHORT" by (cases "encoding ?f") auto
    then show ?thesis
      unfolding splitExamples_def if_not_P[OF b]
      by (simp add: Let_def split_filter goes_left_fun code_of_def)
  qed
qed

lemma frontier_scan_inv:
  "scan_inv nodes pre bg bi \<Longrightarrow> frontier_scan nodes fr (length pre) bg bi = (g, it) \<Longrightarrow>
     scan_inv nodes (pre @ fr) g it"
proof (induction fr arbitrary: pre bg bi)
  case Nil
  then show ?case by simp
next
  case (Cons p fr)
  let ?g = "gain (nodes ! p)"
  have len: "Suc (length pre) = length (pre @ [p])" by simp
  show ?case
  proof (cases "?g > bg")
    case True
    have "scan_inv nodes (pre @ [p]) ?g (Some (length pre))"
      using Cons.prems(1) True
      by (auto simp: scan_inv_def nth_append less_Suc_eq split: option.splits)
    moreover from Cons.prems(2) True
    have "frontier_scan nodes fr (length (pre @ [p])) ?g (Some (length pre)) = (g, it)"
      by simp
    ultimately have "scan_inv nodes ((pre @ [p]) @ fr) g it" by (rule Cons.IH)
    then show ?thesis by simp
  next
    case False
    have "scan_inv nodes (pre @ [p]) bg bi"
      using Cons.prems(1) False
      by (auto simp: scan_inv_def nth_append less_Suc_eq split: option.splits)
    moreover from Cons.prems(2) False
    have "frontier_scan nodes fr (length (pre @ [p])) bg bi = (g, it)"
      by simp
    ultimately have "scan_inv nodes ((pre @ [p]) @ fr) g it" by (rule Cons.IH)
    then show ?thesis by simp
  qed
qed

lemma frontier_scan_spec:
  "frontier_scan nodes fr 0 0 None = (g, it) \<Longrightarrow> scan_inv nodes fr g it"
  using frontier_scan_inv[of nodes "[]" 0 None fr g it] by (simp add: scan_inv_def)

section \<open>One select-expand step\<close>

text \<open>An iteration that does not break selects the frontier entry the search returned,
  removes it from the frontier, and appends two new candidates that own the two sides of
  its subset; they join the frontier unless they are terminal.\<close>

lemma select_expand_break:
  assumes "select_expand t numSplits r (n, s) = Inr (True, n', s')"
  shows "n' = n \<and> s' = s \<and> int (length (frontiers s)) = n + 1
     \<and> snd (frontier_scan (allSplits s) (frontiers s) 0 0 None) = None"
  using assms
  by (auto simp: select_expand_def Let_def split: if_splits prod.splits option.splits sum.splits)

lemma select_expand_effect:
  assumes se: "select_expand t numSplits r (n, s) = Inr (False, n', s')"
    and valid: "\<forall>q\<in>set (frontiers s). q < length (allSplits s)"
    and ok: "\<forall>q<length (allSplits s). node_ok t (allSplits s ! q)"
  obtains k nl nr where
    "k < length (frontiers s)"
    "frontier_scan (allSplits s) (frontiers s) 0 0 None
       = (gain (allSplits s ! (frontiers s ! k)), Some k)"
    "0 < gain (allSplits s ! (frontiers s ! k))"
    "n' = n + 1" "int (length (frontiers s)) = n + 1"
    "allSplits s' = (allSplits s)[frontiers s ! k :=
        (allSplits s ! (frontiers s ! k))\<lparr>selected := True, left := Some (length (allSplits s)),
           right := Some (Suc (length (allSplits s)))\<rparr>] @ [nl, nr]"
    "frontiers s' = take k (frontiers s) @ drop (Suc k) (frontiers s)
        @ (if n' = numSplits then [] else [length (allSplits s), Suc (length (allSplits s))])"
    "new_leaf t (filter (goes_left t (allSplits s ! (frontiers s ! k)))
        (subset (allSplits s ! (frontiers s ! k)))) nl"
    "new_leaf t (filter (\<lambda>i. \<not> goes_left t (allSplits s ! (frontiers s ! k)) i)
        (subset (allSplits s ! (frontiers s ! k)))) nr"
    "n' = numSplits \<longrightarrow> gain nl = 0 \<and> gain nr = 0"
proof -
  let ?fr = "frontiers s" and ?ns = "allSplits s"
  from se have sz: "int (length ?fr) = n + 1"
    by (auto simp: select_expand_def Let_def split: if_splits)
  obtain g it where sc: "frontier_scan ?ns ?fr 0 0 None = (g, it)"
    by (cases "frontier_scan ?ns ?fr 0 0 None")
  from se sz sc obtain k where it: "it = Some k"
    by (cases it) (auto simp: select_expand_def Let_def)
  from frontier_scan_spec[OF sc] it have k: "k < length ?fr" and g: "g = gain (?ns ! (?fr ! k))"
    and pos: "0 < g"
    by (simp_all add: scan_inv_def)
  let ?p = "?fr ! k"
  let ?old = "?ns ! ?p"
  from k valid have p: "?p < length ?ns" by simp
  let ?s1 = "s\<lparr>allSplits := ?ns[?p := ?old\<lparr>selected := True\<rparr>],
                 frontiers := take k ?fr @ drop (Suc k) ?fr\<rparr>"
  have sel: "allSplits ?s1 ! ?p = ?old\<lparr>selected := True\<rparr>" using p by simp
  have okp: "node_ok t (?old\<lparr>selected := True\<rparr>)" using ok p by (simp add: node_ok_def goes_left_fun)
  have posp: "0 < gain (?old\<lparr>selected := True\<rparr>)" using pos g by simp
  let ?l = "filter (goes_left t ?old) (subset ?old)"
  let ?r = "filter (\<lambda>i. \<not> goes_left t ?old i) (subset ?old)"
  have spl: "splitExamples t (?ns[?p := ?old\<lparr>selected := True\<rparr>] ! ?p) ([], []) = Inr (?l, ?r)"
    using sel splitExamples_filter[OF okp posp] by (simp add: goes_left_fun)
  let ?tm = "n + 1 = numSplits"
  from se have X: "(case getBestSplit t ?l r ?tm ?s1 of
        Inl a \<Rightarrow> Inl a
      | Inr (pl, s2) \<Rightarrow>
          (case getBestSplit t ?r r ?tm
                  (s2\<lparr>allSplits := (allSplits s2)[?p := (allSplits s2 ! ?p)\<lparr>left := Some pl\<rparr>]\<rparr>) of
             Inl a \<Rightarrow> Inl a
           | Inr (pr, s3) \<Rightarrow>
               Inr (False, n + 1,
                    s3\<lparr>allSplits := (allSplits s3)[?p := (allSplits s3 ! ?p)\<lparr>right := Some pr\<rparr>]\<rparr>)))
      = Inr (False, n', s')"
    unfolding select_expand_def Let_def fst_conv snd_conv sc it
    using sz pos spl by simp
  from X obtain pl s2 where g1: "getBestSplit t ?l r ?tm ?s1 = Inr (pl, s2)"
    by (cases "getBestSplit t ?l r ?tm ?s1") auto
  from X[unfolded g1] have Y: "(case getBestSplit t ?r r ?tm
                  (s2\<lparr>allSplits := (allSplits s2)[?p := (allSplits s2 ! ?p)\<lparr>left := Some pl\<rparr>]\<rparr>) of
             Inl a \<Rightarrow> Inl a
           | Inr (pr, s3) \<Rightarrow>
               Inr (False, n + 1,
                    s3\<lparr>allSplits := (allSplits s3)[?p := (allSplits s3 ! ?p)\<lparr>right := Some pr\<rparr>]\<rparr>))
      = Inr (False, n', s')"
    by simp
  from Y obtain pr s3 where g2: "getBestSplit t ?r r ?tm
        (s2\<lparr>allSplits := (allSplits s2)[?p := (allSplits s2 ! ?p)\<lparr>left := Some pl\<rparr>]\<rparr>) = Inr (pr, s3)"
    by (cases "getBestSplit t ?r r ?tm
        (s2\<lparr>allSplits := (allSplits s2)[?p := (allSplits s2 ! ?p)\<lparr>left := Some pl\<rparr>]\<rparr>)") auto
  from Y[unfolded g2] have n': "n' = n + 1"
    and s': "s' = s3\<lparr>allSplits := (allSplits s3)[?p := (allSplits s3 ! ?p)\<lparr>right := Some pr\<rparr>]\<rparr>"
    by simp_all
  from getBestSplit_effect[OF g1] obtain nl where
    pl: "pl = length ?ns" and a2: "allSplits s2 = ?ns[?p := ?old\<lparr>selected := True\<rparr>] @ [nl]"
    and nl: "new_leaf t ?l nl" and tl: "?tm \<longrightarrow> gain nl = 0"
    and f2: "frontiers s2 = (if ?tm then take k ?fr @ drop (Suc k) ?fr
                             else (take k ?fr @ drop (Suc k) ?fr) @ [pl])"
    by auto
  let ?s2' = "s2\<lparr>allSplits := (allSplits s2)[?p := (allSplits s2 ! ?p)\<lparr>left := Some pl\<rparr>]\<rparr>"
  have a2': "allSplits ?s2' = ?ns[?p := ?old\<lparr>selected := True, left := Some pl\<rparr>] @ [nl]"
    using p by (simp add: a2 list_update_append nth_append)
  from getBestSplit_effect[OF g2] obtain nr where
    pr: "pr = length (allSplits ?s2')" and a3: "allSplits s3 = allSplits ?s2' @ [nr]"
    and nr: "new_leaf t ?r nr" and tr: "?tm \<longrightarrow> gain nr = 0"
    and f3: "frontiers s3 = (if ?tm then frontiers s2 else frontiers s2 @ [pr])"
    by auto
  have pr': "pr = Suc (length ?ns)" unfolding pr a2' by simp
  note a3' = a3[unfolded a2']
  have A: "allSplits s' = ?ns[?p := ?old\<lparr>selected := True, left := Some (length ?ns),
           right := Some (Suc (length ?ns))\<rparr>] @ [nl, nr]"
    unfolding s' using p by (simp add: a3' pl pr' list_update_append nth_append)
  have F: "frontiers s' = take k ?fr @ drop (Suc k) ?fr
        @ (if n' = numSplits then [] else [length ?ns, Suc (length ?ns)])"
    by (simp add: s' f3 f2 pl pr' n')
  show ?thesis
    using that[OF k _ _ n' sz A F nl nr] sc it g pos tl tr n' by simp
qed

section \<open>Aborts and the frontier size\<close>

text \<open>Candidate construction aborts only on a feature index outside the data set's
  features; the frontier-size check fails only when the sizes differ; so a growth call on
  a fresh regressor never fails it.\<close>

lemma getBestSplitFromHistogram_built_Inr:
  "\<exists>v g. getBestSplitFromHistogram m
      (buildHistogram ys sub fvec (Histogram_new (int n + 1) c ts)) = Inr (v, g)"
proof -
  let ?h = "buildHistogram ys sub fvec (Histogram_new (int (Suc n)) c ts)"
  have "num ?h = int (Suc n)"
    using buildHistogram_frame[where h = "Histogram_new (int (Suc n)) c ts"
        and ys = ys and sub = sub and fvec = fvec]
    by (simp add: Histogram_new_def)
  then have "1 \<le> num ?h" by simp
  from getBestSplitFromHistogram_best_upto[OF built_hist_wf this, of m]
  have e: "\<exists>v g. getBestSplitFromHistogram m ?h = Inr (v, g)" by auto
  have "int n + 1 = int (Suc n)" by simp
  with e show ?thesis by (simp only:)
qed

lemma feature_step_err:
  assumes "feature_step t sub r ts k acc = Inl a"
  shows "a = Out_of_bounds \<and> length (features (ds t)) \<le> k"
proof (cases "length (features (ds t)) \<le> k")
  case True
  with assms show ?thesis by (simp add: feature_step_def)
next
  case False
  define f where "f = features (ds t) ! k"
  obtain vb gb where b: "getBestSplitFromHistogram (FLAGS_min_leaf_examples t)
      (buildHistogram (y_targets t) sub (bvec f)
        (Histogram_new (int (length (transitions f)) + 1) (int (length sub)) ts)) = Inr (vb, gb)"
    using getBestSplitFromHistogram_built_Inr by blast
  obtain vs gs where s: "getBestSplitFromHistogram (FLAGS_min_leaf_examples t)
      (buildHistogram (y_targets t) sub (svec f)
        (Histogram_new (int (length (transitions f)) + 1) (int (length sub)) ts)) = Inr (vs, gs)"
    using getBestSplitFromHistogram_built_Inr by blast
  have "feature_step t sub r ts k acc \<noteq> Inl a"
    using False b s
    by (cases "encoding f") (auto simp: feature_step_def Let_def f_def split: prod.splits)
  with assms show ?thesis by simp
qed

lemma feature_loop_err:
  "feature_loop t sub r ts k acc = Inl a \<Longrightarrow>
     a = Out_of_bounds \<and> int (length (features (ds t))) < numFeatures (ds t)"
proof (induction t sub r ts k acc rule: feature_loop.induct)
  case (1 t sub r ts k acc)
  from "1.prems" have lt: "int k < numFeatures (ds t)"
    by (subst (asm) feature_loop.simps) (auto split: if_splits)
  show ?case
  proof (cases "feature_step t sub r ts k acc")
    case (Inl b)
    with "1.prems" lt have "b = a"
      by (subst (asm) feature_loop.simps) simp
    with feature_step_err[OF Inl] lt show ?thesis by simp
  next
    case (Inr acc1)
    with "1.prems" lt have "feature_loop t sub r ts (Suc k) acc1 = Inl a"
      by (subst (asm) feature_loop.simps) simp
    from "1.IH"[OF lt Inr this] show ?thesis .
  qed
qed

lemma getBestSplit_err:
  assumes "getBestSplit t sub r terminal s = Inl a"
  shows "a = Out_of_bounds \<and> int (length (features (ds t))) < numFeatures (ds t)"
proof -
  from assms have "feature_loop t sub r (foldl (\<lambda>a i. a + y_targets t ! i) 0 sub) 0
      ((- 1, 0, 0), s) = Inl a"
    by (auto simp: getBestSplit_def Let_def split: if_splits sum.splits prod.splits)
  then show ?thesis by (rule feature_loop_err)
qed

lemma splitExamples_err:
  "splitExamples t n lr = Inl a \<Longrightarrow> a = Out_of_bounds \<or> a = CHECK_failed Encoding_is_SHORT"
  by (auto simp: splitExamples_def Let_def split: if_splits)

lemma select_expand_chain:
  assumes se: "select_expand t numSplits r (n, s) = Inr (False, n', s')"
  obtains k l rr pl s2 pr s3 where
    "k < length (frontiers s)" "n' = n + 1" "int (length (frontiers s)) = n + 1"
    "getBestSplit t l r (n + 1 = numSplits)
        (s\<lparr>allSplits := (allSplits s)[frontiers s ! k :=
              (allSplits s ! (frontiers s ! k))\<lparr>selected := True\<rparr>],
           frontiers := take k (frontiers s) @ drop (Suc k) (frontiers s)\<rparr>) = Inr (pl, s2)"
    "getBestSplit t rr r (n + 1 = numSplits)
        (s2\<lparr>allSplits := (allSplits s2)[frontiers s ! k :=
              (allSplits s2 ! (frontiers s ! k))\<lparr>left := Some pl\<rparr>]\<rparr>) = Inr (pr, s3)"
    "frontiers s' = frontiers s3"
proof -
  let ?fr = "frontiers s" and ?ns = "allSplits s"
  from se have sz: "int (length ?fr) = n + 1"
    by (auto simp: select_expand_def Let_def split: if_splits)
  obtain g it where sc: "frontier_scan ?ns ?fr 0 0 None = (g, it)"
    by (cases "frontier_scan ?ns ?fr 0 0 None")
  from se sz sc obtain k where it: "it = Some k"
    by (cases it) (auto simp: select_expand_def Let_def)
  from frontier_scan_spec[OF sc] it have k: "k < length ?fr" and pos: "0 < g"
    by (simp_all add: scan_inv_def)
  let ?p = "?fr ! k"
  let ?s1 = "s\<lparr>allSplits := ?ns[?p := (?ns ! ?p)\<lparr>selected := True\<rparr>],
                 frontiers := take k ?fr @ drop (Suc k) ?fr\<rparr>"
  obtain l rr where spl: "splitExamples t (?ns[?p := (?ns ! ?p)\<lparr>selected := True\<rparr>] ! ?p) ([], [])
      = Inr (l, rr)"
  proof (cases "splitExamples t (?ns[?p := (?ns ! ?p)\<lparr>selected := True\<rparr>] ! ?p) ([], [])")
    case (Inl a)
    with se sz sc it pos have False
      by (simp add: select_expand_def Let_def)
    then show ?thesis ..
  next
    case (Inr b)
    with that show ?thesis by (cases b) auto
  qed
  let ?tm = "n + 1 = numSplits"
  from se have X: "(case getBestSplit t l r ?tm ?s1 of
        Inl a \<Rightarrow> Inl a
      | Inr (pl, s2) \<Rightarrow>
          (case getBestSplit t rr r ?tm
                  (s2\<lparr>allSplits := (allSplits s2)[?p := (allSplits s2 ! ?p)\<lparr>left := Some pl\<rparr>]\<rparr>) of
             Inl a \<Rightarrow> Inl a
           | Inr (pr, s3) \<Rightarrow>
               Inr (False, n + 1,
                    s3\<lparr>allSplits := (allSplits s3)[?p := (allSplits s3 ! ?p)\<lparr>right := Some pr\<rparr>]\<rparr>)))
      = Inr (False, n', s')"
    unfolding select_expand_def Let_def fst_conv snd_conv sc it
    using sz pos spl by simp
  from X obtain pl s2 where g1: "getBestSplit t l r ?tm ?s1 = Inr (pl, s2)"
    by (cases "getBestSplit t l r ?tm ?s1") auto
  from X[unfolded g1] have Y: "(case getBestSplit t rr r ?tm
                  (s2\<lparr>allSplits := (allSplits s2)[?p := (allSplits s2 ! ?p)\<lparr>left := Some pl\<rparr>]\<rparr>) of
             Inl a \<Rightarrow> Inl a
           | Inr (pr, s3) \<Rightarrow>
               Inr (False, n + 1,
                    s3\<lparr>allSplits := (allSplits s3)[?p := (allSplits s3 ! ?p)\<lparr>right := Some pr\<rparr>]\<rparr>))
      = Inr (False, n', s')"
    by simp
  from Y obtain pr s3 where g2: "getBestSplit t rr r ?tm
        (s2\<lparr>allSplits := (allSplits s2)[?p := (allSplits s2 ! ?p)\<lparr>left := Some pl\<rparr>]\<rparr>) = Inr (pr, s3)"
    by (cases "getBestSplit t rr r ?tm
        (s2\<lparr>allSplits := (allSplits s2)[?p := (allSplits s2 ! ?p)\<lparr>left := Some pl\<rparr>]\<rparr>)") auto
  from Y[unfolded g2] have n': "n' = n + 1"
    and s': "s' = s3\<lparr>allSplits := (allSplits s3)[?p := (allSplits s3 ! ?p)\<lparr>right := Some pr\<rparr>]\<rparr>"
    by simp_all
  from s' have "frontiers s' = frontiers s3" by simp
  from that[OF k n' sz g1 g2 this] show ?thesis .
qed

lemma select_expand_frontier_size:
  assumes se: "select_expand t numSplits r (n, s) = Inr (False, n', s')"
  shows "n' = n + 1 \<and> int (length (frontiers s)) = n + 1 \<and>
     int (length (frontiers s')) = (if n' = numSplits then n' - 1 else n' + 1)"
proof -
  from se obtain k l rr pl s2 pr s3 where
    k: "k < length (frontiers s)" and n': "n' = n + 1" and sz: "int (length (frontiers s)) = n + 1"
    and g1: "getBestSplit t l r (n + 1 = numSplits)
        (s\<lparr>allSplits := (allSplits s)[frontiers s ! k :=
              (allSplits s ! (frontiers s ! k))\<lparr>selected := True\<rparr>],
           frontiers := take k (frontiers s) @ drop (Suc k) (frontiers s)\<rparr>) = Inr (pl, s2)"
    and g2: "getBestSplit t rr r (n + 1 = numSplits)
        (s2\<lparr>allSplits := (allSplits s2)[frontiers s ! k :=
              (allSplits s2 ! (frontiers s ! k))\<lparr>left := Some pl\<rparr>]\<rparr>) = Inr (pr, s3)"
    and f: "frontiers s' = frontiers s3"
    by (rule select_expand_chain)
  from getBestSplit_effect[OF g1]
  have f2: "frontiers s2 = (if n + 1 = numSplits then take k (frontiers s) @ drop (Suc k) (frontiers s)
       else (take k (frontiers s) @ drop (Suc k) (frontiers s)) @ [pl])"
    by simp
  from getBestSplit_effect[OF g2]
  have f3: "frontiers s3 = (if n + 1 = numSplits then frontiers s2 else frontiers s2 @ [pr])"
    by simp
  have "length (take k (frontiers s) @ drop (Suc k) (frontiers s)) = length (frontiers s) - 1"
    using k by simp
  with sz k have "int (length (take k (frontiers s) @ drop (Suc k) (frontiers s))) = n"
    by linarith
  with f f2 f3 n' sz show ?thesis
    by (cases "n + 1 = numSplits") simp_all
qed

lemma select_expand_err:
  assumes "select_expand t numSplits r (n, s) = Inl (CHECK_failed Frontier_size)"
  shows "int (length (frontiers s)) \<noteq> n + 1"
proof
  assume sz: "int (length (frontiers s)) = n + 1"
  obtain g it where sc: "frontier_scan (allSplits s) (frontiers s) 0 0 None = (g, it)"
    by (cases "frontier_scan (allSplits s) (frontiers s) 0 0 None")
  from assms sz sc obtain k where it: "it = Some k"
    by (cases it) (auto simp: select_expand_def Let_def)
  from frontier_scan_spec[OF sc] it have pos: "0 < g" by (simp add: scan_inv_def)
  let ?p = "frontiers s ! k"
  let ?s1 = "s\<lparr>allSplits := (allSplits s)[?p := (allSplits s ! ?p)\<lparr>selected := True\<rparr>],
                 frontiers := take k (frontiers s) @ drop (Suc k) (frontiers s)\<rparr>"
  let ?tm = "n + 1 = numSplits"
  show False
  proof (cases "splitExamples t ((allSplits s)[?p := (allSplits s ! ?p)\<lparr>selected := True\<rparr>] ! ?p) ([], [])")
    case (Inl a)
    with assms sz sc it pos have "a = CHECK_failed Frontier_size"
      by (simp add: select_expand_def Let_def)
    with splitExamples_err[OF Inl] show False by simp
  next
    case (Inr lr)
    obtain l rr where lr: "lr = (l, rr)" by (cases lr)
    show False
    proof (cases "getBestSplit t l r ?tm ?s1")
      case (Inl a)
      with assms sz sc it pos Inr lr have "a = CHECK_failed Frontier_size"
        by (simp add: select_expand_def Let_def)
      with getBestSplit_err[OF Inl] show False by simp
    next
      case b: (Inr ps)
      obtain pl s2 where ps: "ps = (pl, s2)" by (cases ps)
      show False
      proof (cases "getBestSplit t rr r ?tm
          (s2\<lparr>allSplits := (allSplits s2)[?p := (allSplits s2 ! ?p)\<lparr>left := Some pl\<rparr>]\<rparr>)")
        case (Inl a)
        with assms sz sc it pos Inr lr b ps have "a = CHECK_failed Frontier_size"
          by (simp add: select_expand_def Let_def)
        with getBestSplit_err[OF Inl] show False by simp
      next
        case c: (Inr ps3)
        with assms sz sc it pos Inr lr b ps show False
          by (cases ps3) (simp add: select_expand_def Let_def)
      qed
    qed
  qed
qed

lemma do_while_no_frontier_failure:
  "int (length (frontiers (snd ns))) = fst ns + 1 \<Longrightarrow>
     do_while t numSplits r ns \<noteq> Inl (CHECK_failed Frontier_size)"
proof (induction t numSplits r ns rule: do_while.induct)
  case (1 t numSplits r ns)
  obtain n s where ns: "ns = (n, s)" by (cases ns)
  show ?case
  proof (cases "select_expand t numSplits r ns")
    case (Inl a)
    with select_expand_err[of t numSplits r n s] "1.prems" ns
    have "a \<noteq> CHECK_failed Frontier_size" by auto
    with Inl show ?thesis by (subst do_while.simps) simp
  next
    case (Inr b)
    obtain brk n' s' where b: "b = (brk, n', s')" by (cases b)
    show ?thesis
    proof (cases "\<not> brk \<and> n' < numSplits")
      case True
      with Inr b ns have se: "select_expand t numSplits r (n, s) = Inr (False, n', s')" by simp
      from select_expand_frontier_size[OF se] True
      have "int (length (frontiers (snd (n', s')))) = fst (n', s') + 1" by simp
      from "1.IH"[OF Inr _ _ True this] b
      have "do_while t numSplits r (n', s') \<noteq> Inl (CHECK_failed Frontier_size)" by simp
      with Inr b True show ?thesis by (subst do_while.simps) simp
    next
      case False
      with Inr b show ?thesis by (subst do_while.simps) auto
    qed
  qed
qed

lemma getBestSplits_no_frontier_failure:
  assumes "allSplits s0 = []" "frontiers s0 = []"
  shows "getBestSplits t sub numSplits r s0 \<noteq> Inl (CHECK_failed Frontier_size)"
proof (cases "getBestSplit t sub r False s0")
  case (Inl a)
  with getBestSplit_err[OF Inl] show ?thesis by (simp add: getBestSplits_def)
next
  case (Inr ps)
  obtain p s1 where ps: "ps = (p, s1)" by (cases ps)
  from getBestSplit_effect[OF Inr[unfolded ps]] have "frontiers s1 = [p]"
    by (simp add: assms)
  then have "int (length (frontiers (snd (0::int, s1)))) = fst (0::int, s1) + 1" by simp
  from do_while_no_frontier_failure[OF this, of t numSplits r] Inr ps show ?thesis
    by (auto simp: getBestSplits_def split: sum.splits)
qed

section \<open>The arena invariant\<close>

text \<open>An expansion keeps every part of the invariant; so does the whole loop, and the root
  candidate of a fresh regressor establishes it.\<close>

lemma length_expand: "length (expand ns p nl nr) = Suc (Suc (length ns))"
  by (simp add: expand_def)

lemma expand_nth_old: "q < length ns \<Longrightarrow> q \<noteq> p \<Longrightarrow> expand ns p nl nr ! q = ns ! q"
  by (simp add: expand_def nth_append)

lemma expand_nth_p:
  "p < length ns \<Longrightarrow> expand ns p nl nr ! p
     = (ns ! p)\<lparr>selected := True, left := Some (length ns), right := Some (Suc (length ns))\<rparr>"
  by (simp add: expand_def nth_append)

lemma expand_nth_l: "expand ns p nl nr ! length ns = nl"
  by (simp add: expand_def nth_append)

lemma expand_nth_r: "expand ns p nl nr ! Suc (length ns) = nr"
  by (simp add: expand_def nth_append)

lemma expand_subset: "q < length ns \<Longrightarrow> subset (expand ns p nl nr ! q) = subset (ns ! q)"
  by (cases "q = p") (simp_all add: expand_nth_old expand_nth_p)

lemma goes_left_links [simp]:
  "goes_left t (n\<lparr>selected := b, left := x, right := y\<rparr>) = goes_left t n"
  by (simp add: goes_left_fun)

lemma node_ok_links [simp]:
  "node_ok t (n\<lparr>selected := b, left := x, right := y\<rparr>) = node_ok t n"
  by (simp add: node_ok_def)

lemma expand_cases:
  assumes "q < length (expand ns p nl nr)"
  obtains (old) "q < length ns" "q \<noteq> p" | (sel) "q = p" "p < length ns"
    | (l) "q = length ns" | (r) "q = Suc (length ns)"
  using assms unfolding length_expand by (cases "q = p") (auto simp: less_Suc_eq)

lemma node_ok_expand:
  assumes "\<forall>q<length ns. node_ok t (ns ! q)" "node_ok t nl" "node_ok t nr"
  shows "\<forall>q<length (expand ns p nl nr). node_ok t (expand ns p nl nr ! q)"
proof (intro allI impI)
  fix q assume "q < length (expand ns p nl nr)"
  then show "node_ok t (expand ns p nl nr ! q)"
    using assms
    by (cases rule: expand_cases)
      (simp_all add: expand_nth_old expand_nth_p expand_nth_l expand_nth_r)
qed

lemma linked_expand:
  assumes lk: "linked t ns" and p: "p < length ns" and un: "\<not> selected (ns ! p)"
    and gp: "0 < gain (ns ! p)"
    and nl: "new_leaf t (filter (goes_left t (ns ! p)) (subset (ns ! p))) nl"
    and nr: "new_leaf t (filter (\<lambda>i. \<not> goes_left t (ns ! p) i) (subset (ns ! p))) nr"
  shows "linked t (expand ns p nl nr)"
  unfolding linked_def
proof (intro allI impI)
  let ?e = "expand ns p nl nr"
  fix q assume "q < length ?e"
  then show "if selected (?e ! q) then
          0 < gain (?e ! q) \<and>
          (\<exists>l r. left (?e ! q) = Some l \<and> right (?e ! q) = Some r \<and> q < l \<and> l < r \<and>
             r < length ?e \<and>
             subset (?e ! l) = filter (goes_left t (?e ! q)) (subset (?e ! q)) \<and>
             subset (?e ! r) = filter (\<lambda>i. \<not> goes_left t (?e ! q) i) (subset (?e ! q)))
        else left (?e ! q) = None \<and> right (?e ! q) = None"
  proof (cases rule: expand_cases)
    case old
    show ?thesis
    proof (cases "selected (ns ! q)")
      case True
      with lk old(1) obtain l r where g: "0 < gain (ns ! q)"
        and c: "left (ns ! q) = Some l" "right (ns ! q) = Some r" "q < l" "l < r" "r < length ns"
        "subset (ns ! l) = filter (goes_left t (ns ! q)) (subset (ns ! q))"
        "subset (ns ! r) = filter (\<lambda>i. \<not> goes_left t (ns ! q) i) (subset (ns ! q))"
        unfolding linked_def by (metis (no_types, lifting))
      from c have l: "l < length ns" by simp
      have "subset (?e ! l) = subset (ns ! l)" "subset (?e ! r) = subset (ns ! r)"
        using l c(5) by (simp_all add: expand_subset)
      with True g c old show ?thesis
        by (simp add: expand_nth_old length_expand)
    next
      case False
      with lk old show ?thesis
        unfolding linked_def by (simp add: expand_nth_old)
    qed
  next
    case sel
    have "subset (?e ! length ns) = filter (goes_left t (ns ! p)) (subset (ns ! p))"
      using nl by (simp add: expand_nth_l new_leaf_def)
    moreover have "subset (?e ! Suc (length ns)) = filter (\<lambda>i. \<not> goes_left t (ns ! p) i) (subset (ns ! p))"
      using nr by (simp add: expand_nth_r new_leaf_def)
    ultimately show ?thesis
      using sel gp by (simp add: expand_nth_p length_expand)
  next
    case l
    then show ?thesis using nl by (simp add: expand_nth_l new_leaf_def)
  next
    case r
    then show ?thesis using nr by (simp add: expand_nth_r new_leaf_def)
  qed
qed


lemma distinct_remove_nth:
  assumes "distinct xs" "k < length xs"
  shows "distinct (take k xs @ drop (Suc k) xs) \<and> xs ! k \<notin> set (take k xs @ drop (Suc k) xs)
    \<and> set (take k xs @ drop (Suc k) xs) \<subseteq> set xs"
proof -
  have "xs = take k xs @ xs ! k # drop (Suc k) xs"
    using assms(2) by (simp add: id_take_nth_drop)
  with assms(1) have "distinct (take k xs @ xs ! k # drop (Suc k) xs)" by simp
  then have "distinct (take k xs @ drop (Suc k) xs) \<and> xs ! k \<notin> set (take k xs @ drop (Suc k) xs)"
    by auto
  moreover have "set (take k xs @ drop (Suc k) xs) \<subseteq> set xs"
    by (auto dest: in_set_takeD in_set_dropD)
  ultimately show ?thesis by blast
qed

lemma frontier_ok_expand:
  assumes fo: "frontier_ok s" and k: "k < length (frontiers s)"
    and A: "allSplits s' = expand (allSplits s) (frontiers s ! k) nl nr"
    and F: "frontiers s' = take k (frontiers s) @ drop (Suc k) (frontiers s) @ ext"
    and ext: "ext = [] \<or> ext = [length (allSplits s), Suc (length (allSplits s))]"
    and nl: "\<not> selected nl" and nr: "\<not> selected nr"
  shows "frontier_ok s'"
proof -
  let ?fr = "frontiers s" and ?ns = "allSplits s"
  let ?rest = "take k ?fr @ drop (Suc k) ?fr"
  from fo have d: "distinct ?fr" and v: "\<forall>q\<in>set ?fr. q < length ?ns \<and> \<not> selected (?ns ! q)"
    by (simp_all add: frontier_ok_def)
  from distinct_remove_nth[OF d k]
  have dr: "distinct ?rest" and pn: "?fr ! k \<notin> set ?rest" and sub: "set ?rest \<subseteq> set ?fr"
    by blast+
  have r_ok: "q < length (allSplits s') \<and> \<not> selected (allSplits s' ! q)" if "q \<in> set ?rest" for q
  proof -
    from that sub v have "q < length ?ns" "\<not> selected (?ns ! q)" by blast+
    moreover from that pn have "q \<noteq> ?fr ! k" by blast
    ultimately show ?thesis by (simp add: A length_expand expand_nth_old)
  qed
  have e_ok: "q < length (allSplits s') \<and> \<not> selected (allSplits s' ! q)" if "q \<in> set ext" for q
    using that ext nl nr by (auto simp: A length_expand expand_nth_l expand_nth_r)
  have "set ?rest \<inter> set ext = {}"
  proof -
    have "\<forall>q\<in>set ?rest. q < length ?ns" using sub v by blast
    moreover have "\<forall>q\<in>set ext. length ?ns \<le> q" using ext by auto
    ultimately show ?thesis by fastforce
  qed
  moreover have "distinct ext" using ext by auto
  ultimately have "distinct (?rest @ ext)"
    using dr distinct_append[of ?rest ext] by blast
  moreover have F': "frontiers s' = ?rest @ ext" using F by simp
  moreover have "\<forall>q\<in>set (?rest @ ext). q < length (allSplits s') \<and> \<not> selected (allSplits s' ! q)"
    using r_ok e_ok by (metis Un_iff set_append)
  ultimately show ?thesis
    unfolding frontier_ok_def by (simp only:) 
qed

lemma top_subst_leaf: "top new = p \<Longrightarrow> top (subst_leaf p new tr) = top tr"
  by (induction tr) simp_all

lemma tree_at_expand:
  assumes p: "p < length ns" and un: "\<not> selected (ns ! p)" and nl: "\<not> selected nl"
    and nr: "\<not> selected nr"
  shows "tree_at ns tr \<Longrightarrow>
    tree_at (expand ns p nl nr)
      (subst_leaf p (SNode p (SLeaf (length ns)) (SLeaf (Suc (length ns)))) tr)"
proof (induction tr)
  case (SLeaf q)
  show ?case
  proof (cases "q = p")
    case True
    with p nl nr show ?thesis
      by (simp add: expand_nth_p expand_nth_l expand_nth_r length_expand)
  next
    case False
    with SLeaf show ?thesis
      by (simp add: expand_nth_old length_expand)
  qed
next
  case (SNode q a b)
  from SNode.prems un have "q \<noteq> p" by auto
  with SNode show ?case
    by (simp add: expand_nth_old length_expand top_subst_leaf)
qed

lemma leaves_labels: "set (leaves tr) \<subseteq> set (labels tr)"
  by (induction tr) auto

lemma tree_at_leaf:
  "tree_at ns tr \<Longrightarrow> p \<in> set (labels tr) \<Longrightarrow> \<not> selected (ns ! p) \<Longrightarrow> p \<in> set (leaves tr)"
  by (induction tr) auto

lemma labels_subst_leaf:
  "set (labels (subst_leaf p (SNode p (SLeaf n) (SLeaf (Suc n))) tr))
     = set (labels tr) \<union> (if p \<in> set (leaves tr) then {n, Suc n} else {})"
  by (induction tr) auto

lemma distinct_labels_subst_leaf:
  assumes "\<forall>q\<in>set (labels tr). q < n"
  shows "distinct (labels tr) \<Longrightarrow>
    distinct (labels (subst_leaf p (SNode p (SLeaf n) (SLeaf (Suc n))) tr))"
  using assms
proof (induction tr)
  case (SLeaf q)
  then show ?case by auto
next
  case (SNode q a b)
  let ?new = "SNode p (SLeaf n) (SLeaf (Suc n))"
  from SNode.prems have da: "distinct (labels a)" and db: "distinct (labels b)"
    and dis: "set (labels a) \<inter> set (labels b) = {}"
    and q: "q \<notin> set (labels a)" "q \<notin> set (labels b)" "q < n"
    and ba: "\<forall>x\<in>set (labels a). x < n" and bb: "\<forall>x\<in>set (labels b). x < n"
    by auto
  have "\<not> (p \<in> set (leaves a) \<and> p \<in> set (leaves b))"
    using dis leaves_labels[of a] leaves_labels[of b] by blast
  then have "set (labels (subst_leaf p ?new a)) \<inter> set (labels (subst_leaf p ?new b)) = {}"
    using dis ba bb unfolding labels_subst_leaf by (auto split: if_splits)
  moreover have "q \<notin> set (labels (subst_leaf p ?new a))" "q \<notin> set (labels (subst_leaf p ?new b))"
    using q unfolding labels_subst_leaf by (auto split: if_splits)
  ultimately show ?case
    using SNode.IH(1)[OF da ba] SNode.IH(2)[OF db bb] by simp
qed

lemma shaped_expand:
  assumes sh: "shaped ns" and p: "p < length ns" and un: "\<not> selected (ns ! p)"
    and nl: "\<not> selected nl" and nr: "\<not> selected nr"
  shows "shaped (expand ns p nl nr)"
proof -
  from sh obtain tr where tr: "top tr = 0" "tree_at ns tr" "distinct (labels tr)"
    "set (labels tr) = {..<length ns}"
    unfolding shaped_def by blast
  let ?new = "SNode p (SLeaf (length ns)) (SLeaf (Suc (length ns)))"
  let ?tr = "subst_leaf p ?new tr"
  have 1: "top ?tr = 0" using tr(1) by (simp add: top_subst_leaf)
  have 2: "tree_at (expand ns p nl nr) ?tr"
    using tree_at_expand[OF p un nl nr tr(2)] .
  have b: "\<forall>q\<in>set (labels tr). q < length ns" using tr(4) by simp
  have 3: "distinct (labels ?tr)"
    using distinct_labels_subst_leaf[OF b tr(3)] .
  have "p \<in> set (labels tr)" using tr(4) p by simp
  then have "p \<in> set (leaves tr)" using tree_at_leaf[OF tr(2) _ un] by simp
  then have 4: "set (labels ?tr) = {..<length (expand ns p nl nr)}"
    unfolding labels_subst_leaf tr(4) length_expand by (auto simp: less_Suc_eq)
  from 1 2 3 4 show ?thesis unfolding shaped_def by blast
qed


lemma arena_inv_expand:
  assumes inv: "arena_inv t sub0 s" and k: "k < length (frontiers s)"
    and gp: "0 < gain (allSplits s ! (frontiers s ! k))"
    and A: "allSplits s' = expand (allSplits s) (frontiers s ! k) nl nr"
    and F: "frontiers s' = take k (frontiers s) @ drop (Suc k) (frontiers s) @ ext"
    and ext: "ext = [] \<or> ext = [length (allSplits s), Suc (length (allSplits s))]"
    and nl: "new_leaf t (filter (goes_left t (allSplits s ! (frontiers s ! k)))
        (subset (allSplits s ! (frontiers s ! k)))) nl"
    and nr: "new_leaf t (filter (\<lambda>i. \<not> goes_left t (allSplits s ! (frontiers s ! k)) i)
        (subset (allSplits s ! (frontiers s ! k)))) nr"
  shows "arena_inv t sub0 s'"
proof -
  let ?ns = "allSplits s" and ?p = "frontiers s ! k"
  let ?e = "expand ?ns ?p nl nr"
  let ?old = "?ns ! ?p"
  from inv have len: "0 < length ?ns" and root: "subset (?ns ! 0) = sub0"
    and ok: "\<forall>q<length ?ns. node_ok t (?ns ! q)"
    and inc: "\<forall>q<length ?ns. set (subset (?ns ! q)) \<subseteq> set sub0"
    and szd: "\<forall>q<length ?ns. 0 < q \<longrightarrow> ds_wf t \<and> rows_ok t sub0 \<longrightarrow>
        FLAGS_min_leaf_examples t \<le> int (length (subset (?ns ! q)))"
    and lk: "linked t ?ns" and fo: "frontier_ok s" and sh: "shaped ?ns"
    unfolding arena_inv_def by blast+
  from fo k have p: "?p < length ?ns" and un: "\<not> selected ?old"
    by (simp_all add: frontier_ok_def)
  from nl nr have unl: "\<not> selected nl" "\<not> selected nr" and okl: "node_ok t nl" "node_ok t nr"
    and sl: "subset nl = filter (goes_left t ?old) (subset ?old)"
    and sr: "subset nr = filter (\<lambda>i. \<not> goes_left t ?old i) (subset ?old)"
    by (simp_all add: new_leaf_def)
  have 1: "0 < length ?e" by (simp add: length_expand)
  have 2: "subset (?e ! 0) = sub0" using len root by (simp add: expand_subset)
  have 3: "\<forall>q<length ?e. node_ok t (?e ! q)"
    using node_ok_expand[OF ok okl] .
  have 4: "\<forall>q<length ?e. set (subset (?e ! q)) \<subseteq> set sub0"
  proof (intro allI impI)
    fix q assume "q < length ?e"
    then show "set (subset (?e ! q)) \<subseteq> set sub0"
    proof (cases rule: expand_cases)
      case old
      then show ?thesis using inc by (simp add: expand_subset)
    next
      case sel
      then show ?thesis using inc by (simp add: expand_subset)
    next
      case l
      then show ?thesis using inc p sl by (auto simp: expand_nth_l)
    next
      case r
      then show ?thesis using inc p sr by (auto simp: expand_nth_r)
    qed
  qed
  have big: "FLAGS_min_leaf_examples t \<le> int (length (subset nl)) \<and>
      FLAGS_min_leaf_examples t \<le> int (length (subset nr))" if w: "ds_wf t" "rows_ok t sub0"
  proof -
    have "rows_ok t (subset ?old)" using w(2) inc p unfolding rows_ok_def by blast
    with ok p gp w(1) show ?thesis unfolding sl sr node_ok_def by blast
  qed
  have 5: "\<forall>q<length ?e. 0 < q \<longrightarrow> ds_wf t \<and> rows_ok t sub0 \<longrightarrow>
        FLAGS_min_leaf_examples t \<le> int (length (subset (?e ! q)))"
  proof (intro allI impI)
    fix q assume q: "q < length ?e" "0 < q" and w: "ds_wf t \<and> rows_ok t sub0"
    from q(1) show "FLAGS_min_leaf_examples t \<le> int (length (subset (?e ! q)))"
    proof (cases rule: expand_cases)
      case old
      then show ?thesis using szd q(2) w by (simp add: expand_subset)
    next
      case sel
      then show ?thesis using szd q(2) w by (simp add: expand_subset)
    next
      case l
      then show ?thesis using big w by (simp add: expand_nth_l)
    next
      case r
      then show ?thesis using big w by (simp add: expand_nth_r)
    qed
  qed
  have 6: "linked t ?e" using linked_expand[OF lk p un gp nl nr] .
  have 7: "frontier_ok s'" using frontier_ok_expand[OF fo k A F ext unl] .
  have 8: "shaped ?e" using shaped_expand[OF sh p un unl] .
  from 1 2 3 4 5 6 7 8 show ?thesis
    unfolding arena_inv_def A by blast
qed

lemma arena_inv_select_expand:
  assumes inv: "arena_inv t sub0 s" and se: "select_expand t numSplits r (n, s) = Inr (brk, n', s')"
  shows "arena_inv t sub0 s'"
proof (cases brk)
  case True
  with select_expand_break[of t numSplits r n s n' s'] se inv show ?thesis by simp
next
  case False
  from inv have ok: "\<forall>q<length (allSplits s). node_ok t (allSplits s ! q)"
    and fo: "frontier_ok s"
    unfolding arena_inv_def by blast+
  from fo have valid: "\<forall>q\<in>set (frontiers s). q < length (allSplits s)"
    by (simp add: frontier_ok_def)
  from se False have se': "select_expand t numSplits r (n, s) = Inr (False, n', s')" by simp
  from se' valid ok obtain k nl nr where
    k: "k < length (frontiers s)"
    and gp: "0 < gain (allSplits s ! (frontiers s ! k))"
    and A: "allSplits s' = (allSplits s)[frontiers s ! k :=
        (allSplits s ! (frontiers s ! k))\<lparr>selected := True, left := Some (length (allSplits s)),
           right := Some (Suc (length (allSplits s)))\<rparr>] @ [nl, nr]"
    and F: "frontiers s' = take k (frontiers s) @ drop (Suc k) (frontiers s)
        @ (if n' = numSplits then [] else [length (allSplits s), Suc (length (allSplits s))])"
    and nl: "new_leaf t (filter (goes_left t (allSplits s ! (frontiers s ! k)))
        (subset (allSplits s ! (frontiers s ! k)))) nl"
    and nr: "new_leaf t (filter (\<lambda>i. \<not> goes_left t (allSplits s ! (frontiers s ! k)) i)
        (subset (allSplits s ! (frontiers s ! k)))) nr"
    by (rule select_expand_effect)
  have A': "allSplits s' = expand (allSplits s) (frontiers s ! k) nl nr"
    using A by (simp add: expand_def)
  have ext: "(if n' = numSplits then [] else [length (allSplits s), Suc (length (allSplits s))]) = []
     \<or> (if n' = numSplits then [] else [length (allSplits s), Suc (length (allSplits s))])
        = [length (allSplits s), Suc (length (allSplits s))]"
    by simp
  from arena_inv_expand[OF inv k gp A' F ext nl nr] show ?thesis .
qed

lemma do_while_inv:
  "arena_inv t sub0 (snd ns) \<Longrightarrow> do_while t numSplits r ns = Inr (n', s') \<Longrightarrow>
     arena_inv t sub0 s'"
proof (induction t numSplits r ns rule: do_while.induct)
  case (1 t numSplits r ns)
  obtain n s where ns: "ns = (n, s)" by (cases ns)
  from "1.prems"(2) obtain b where se: "select_expand t numSplits r ns = Inr b"
    by (subst (asm) do_while.simps) (auto split: sum.splits)
  obtain brk n1 s1 where b: "b = (brk, n1, s1)" by (cases b)
  from arena_inv_select_expand[of t sub0 s numSplits r n brk n1 s1] "1.prems"(1) se b ns
  have inv1: "arena_inv t sub0 s1" by simp
  show ?case
  proof (cases "\<not> brk \<and> n1 < numSplits")
    case True
    with "1.prems"(2) se b have "do_while t numSplits r (n1, s1) = Inr (n', s')"
      by (subst (asm) do_while.simps) simp
    from "1.IH"[OF se _ _ True _ this] b inv1 show ?thesis by simp
  next
    case False
    with "1.prems"(2) se b have "s' = s1"
      by (subst (asm) do_while.simps) auto
    with inv1 show ?thesis by simp
  qed
qed

lemma arena_inv_root:
  assumes "getBestSplit t sub0 r False s0 = Inr (p, s)" and "allSplits s0 = []"
    and "frontiers s0 = []"
  shows "p = 0 \<and> arena_inv t sub0 s"
proof -
  from getBestSplit_effect[OF assms(1)] obtain n where p: "p = 0" and A: "allSplits s = [n]"
    and nl: "new_leaf t sub0 n" and F: "frontiers s = [0]"
    by (auto simp: assms(2,3))
  have "linked t [n]" using nl by (simp add: linked_def new_leaf_def)
  moreover have "frontier_ok s" using nl A F by (simp add: frontier_ok_def new_leaf_def)
  moreover have "shaped [n]"
    unfolding shaped_def using nl
    by (intro exI[of _ "SLeaf 0"]) (auto simp: new_leaf_def)
  ultimately show ?thesis
    using p A nl unfolding arena_inv_def by (simp add: new_leaf_def)
qed

lemma getBestSplits_inv:
  assumes "getBestSplits t sub0 numSplits r s0 = Inr (p, s)" and "allSplits s0 = []"
    and "frontiers s0 = []"
  shows "p = 0 \<and> arena_inv t sub0 s"
proof -
  from assms(1) obtain s1 n where g: "getBestSplit t sub0 r False s0 = Inr (p, s1)"
    and d: "do_while t numSplits r (0, s1) = Inr (n, s)"
    by (auto simp: getBestSplits_def split: sum.splits prod.splits)
  from arena_inv_root[OF g assms(2,3)]
  have "p = 0" "arena_inv t sub0 (snd (0::int, s1))" by simp_all
  with do_while_inv[OF _ d] show ?thesis by blast
qed

section \<open>Materialisation\<close>

text \<open>On an arena that is a tree, \<^verbatim>\<open>getTreeHelper\<close> adds the gain of every selected node
  to the importance of its feature, once; with fuel for the height of the tree and
  feature ids inside \<^verbatim>\<open>fimps\<close>, it returns a tree unless a leaf fails its size check.\<close>

lemma length_add_gains: "length (add_gains ns tr fimps) = length fimps"
  by (induction tr arbitrary: fimps) simp_all

lemma getTreeHelper_add_gains:
  "tree_at ns tr \<Longrightarrow> getTreeHelper fuel t ns (Some (top tr)) fimps = Some (Inr (x, fimps')) \<Longrightarrow>
     fimps' = add_gains ns tr fimps"
proof (induction tr arbitrary: fuel fimps x fimps')
  case (SLeaf p)
  then show ?case
    by (cases fuel) (auto simp: Let_def split: if_splits)
next
  case (SNode p a b)
  from SNode.prems(2) obtain m where fuel: "fuel = Suc m" by (cases fuel) auto
  let ?f1 = "fimps[nat (fid (ns ! p)) := fimps ! nat (fid (ns ! p)) + gain (ns ! p)]"
  from SNode.prems(1) have sel: "selected (ns ! p)" and l: "left (ns ! p) = Some (top a)"
    and r: "right (ns ! p) = Some (top b)" and ta: "tree_at ns a" and tb: "tree_at ns b"
    by simp_all
  from SNode.prems(2) fuel sel l r obtain xa fa where
    ga: "getTreeHelper m t ns (Some (top a)) ?f1 = Some (Inr (xa, fa))"
    by (auto simp: Let_def split: if_splits option.splits sum.splits)
  from SNode.prems(2) fuel sel l r ga obtain xb fb where
    gb: "getTreeHelper m t ns (Some (top b)) fa = Some (Inr (xb, fb))" and f': "fimps' = fb"
    by (auto simp: Let_def split: if_splits option.splits sum.splits)
  from SNode.IH(1)[OF ta ga] SNode.IH(2)[OF tb gb] f' show ?case by simp
qed

lemma getTreeHelper_total:
  "tree_at ns tr \<Longrightarrow> height tr \<le> fuel \<Longrightarrow>
   \<forall>p\<in>set (internal tr). 0 \<le> fid (ns ! p) \<and> fid (ns ! p) < int (length fimps) \<Longrightarrow>
   (\<exists>x. getTreeHelper fuel t ns (Some (top tr)) fimps = Some (Inr (Some x, add_gains ns tr fimps)))
   \<or> (getTreeHelper fuel t ns (Some (top tr)) fimps = Some (Inl (CHECK_failed Leaf_subset_size))
       \<and> (\<exists>p\<in>set (leaves tr).
            \<not> as_size_t (FLAGS_min_leaf_examples t) \<le> int (length (subset (ns ! p)))))"
proof (induction tr arbitrary: fuel fimps)
  case (SLeaf p)
  then obtain m where "fuel = Suc m" by (cases fuel) auto
  with SLeaf show ?case by (simp add: Let_def)
next
  case (SNode p a b)
  from SNode.prems(2) obtain m where fuel: "fuel = Suc m" and ha: "height a \<le> m"
    and hb: "height b \<le> m"
    by (cases fuel) auto
  let ?f1 = "fimps[nat (fid (ns ! p)) := fimps ! nat (fid (ns ! p)) + gain (ns ! p)]"
  from SNode.prems(1) have sel: "selected (ns ! p)" and l: "left (ns ! p) = Some (top a)"
    and r: "right (ns ! p) = Some (top b)" and ta: "tree_at ns a" and tb: "tree_at ns b"
    by simp_all
  from SNode.prems(3) have fp: "\<not> (fid (ns ! p) < 0 \<or> int (length fimps) \<le> fid (ns ! p))"
    and ia: "\<forall>q\<in>set (internal a). 0 \<le> fid (ns ! q) \<and> fid (ns ! q) < int (length ?f1)"
    and ib: "\<forall>q\<in>set (internal b). 0 \<le> fid (ns ! q) \<and> fid (ns ! q) < int (length fimps)"
    by auto
  from SNode.IH(1)[OF ta ha ia] show ?case
  proof
    assume "\<exists>x. getTreeHelper m t ns (Some (top a)) ?f1 = Some (Inr (Some x, add_gains ns a ?f1))"
    then obtain xa where ga: "getTreeHelper m t ns (Some (top a)) ?f1
        = Some (Inr (Some xa, add_gains ns a ?f1))" by blast
    from ib have ib': "\<forall>q\<in>set (internal b). 0 \<le> fid (ns ! q)
        \<and> fid (ns ! q) < int (length (add_gains ns a ?f1))"
      by (simp add: length_add_gains)
    from SNode.IH(2)[OF tb hb ib'] show ?thesis
    proof
      assume "\<exists>x. getTreeHelper m t ns (Some (top b)) (add_gains ns a ?f1)
          = Some (Inr (Some x, add_gains ns b (add_gains ns a ?f1)))"
      then obtain xb where gb: "getTreeHelper m t ns (Some (top b)) (add_gains ns a ?f1)
          = Some (Inr (Some xb, add_gains ns b (add_gains ns a ?f1)))" by blast
      show ?thesis
        using fuel sel l r fp ga gb by (simp add: Let_def)
    next
      assume "getTreeHelper m t ns (Some (top b)) (add_gains ns a ?f1)
            = Some (Inl (CHECK_failed Leaf_subset_size))
         \<and> (\<exists>p\<in>set (leaves b).
            \<not> as_size_t (FLAGS_min_leaf_examples t) \<le> int (length (subset (ns ! p))))"
      then show ?thesis
        using fuel sel l r fp ga by (auto simp: Let_def)
    qed
  next
    assume "getTreeHelper m t ns (Some (top a)) ?f1 = Some (Inl (CHECK_failed Leaf_subset_size))
         \<and> (\<exists>p\<in>set (leaves a).
            \<not> as_size_t (FLAGS_min_leaf_examples t) \<le> int (length (subset (ns ! p))))"
    then show ?thesis
      using fuel sel l r fp by (auto simp: Let_def)
  qed
qed

lemma height_le_labels: "height tr \<le> length (labels tr)"
  by (induction tr) auto

lemma add_gains_nth:
  "f < length fimps \<Longrightarrow> \<forall>p\<in>set (internal tr). 0 \<le> fid (ns ! p) \<Longrightarrow>
   add_gains ns tr fimps ! f
     = fimps ! f + sum_list (map (\<lambda>p. gain (ns ! p))
                      (filter (\<lambda>p. fid (ns ! p) = int f) (internal tr)))"
proof (induction tr arbitrary: fimps)
  case (SLeaf p)
  then show ?case by simp
next
  case (SNode p a b)
  let ?f1 = "fimps[nat (fid (ns ! p)) := fimps ! nat (fid (ns ! p)) + gain (ns ! p)]"
  from SNode.prems have nn: "0 \<le> fid (ns ! p)"
    and ia: "\<forall>q\<in>set (internal a). 0 \<le> fid (ns ! q)"
    and ib: "\<forall>q\<in>set (internal b). 0 \<le> fid (ns ! q)"
    by simp_all
  have f1: "f < length ?f1" using SNode.prems(1) by simp
  have fa: "f < length (add_gains ns a ?f1)" using f1 by (simp add: length_add_gains)
  have eq: "(nat (fid (ns ! p)) = f) = (fid (ns ! p) = int f)" using nn by linarith
  have step: "?f1 ! f = fimps ! f + (if fid (ns ! p) = int f then gain (ns ! p) else 0)"
    using SNode.prems(1) eq by (simp add: nth_list_update)
  show ?case
    using SNode.IH(2)[OF fa ib] SNode.IH(1)[OF f1 ia] step by simp
qed

lemma internal_selected:
  "tree_at ns tr \<Longrightarrow> internal tr = filter (\<lambda>p. selected (ns ! p)) (labels tr)"
  by (induction tr) simp_all

lemma sum_over_arena:
  fixes g :: "SplitNode \<Rightarrow> real"
  assumes "distinct xs" "set xs = {..<length ns}"
  shows "sum_list (map (\<lambda>p. g (ns ! p)) (filter (\<lambda>p. Q (ns ! p)) xs))
     = sum_list (map g (filter Q ns))"
proof -
  have "mset xs = mset [0..<length ns]"
    using assms by (metis atLeast_upt distinct_upt set_eq_iff_mset_eq_distinct)
  then have "mset (map (\<lambda>p. ns ! p) xs) = mset (map (\<lambda>p. ns ! p) [0..<length ns])"
    by simp
  also have "map (\<lambda>p. ns ! p) [0..<length ns] = ns" by (rule map_nth)
  finally have m: "mset (map (\<lambda>p. ns ! p) xs) = mset ns" .
  have "map (\<lambda>p. g (ns ! p)) (filter (\<lambda>p. Q (ns ! p)) xs)
      = map g (filter Q (map (\<lambda>p. ns ! p) xs))"
    by (simp add: filter_map comp_def)
  then have "sum_list (map (\<lambda>p. g (ns ! p)) (filter (\<lambda>p. Q (ns ! p)) xs))
      = sum_mset (image_mset g (filter_mset Q (mset (map (\<lambda>p. ns ! p) xs))))"
    by (metis mset_filter mset_map sum_mset_sum_list)
  also have "\<dots> = sum_list (map g (filter Q ns))"
    unfolding m by (metis mset_filter mset_map sum_mset_sum_list)
  finally show ?thesis .
qed

section \<open>Growth without aborts\<close>

text \<open>On a regressor with an empty arena and frontier, growth aborts only when the data
  set claims more features than it holds. The sampling loop touches neither the arena nor
  the frontier, and samples rows of the data set only.\<close>

lemma select_expand_abort:
  assumes inv: "arena_inv t sub0 s" and sz: "int (length (frontiers s)) = n + 1"
    and se: "select_expand t numSplits r (n, s) = Inl a"
  shows "a = Out_of_bounds \<and> int (length (features (ds t))) < numFeatures (ds t)"
proof -
  from inv have ok: "\<forall>q<length (allSplits s). node_ok t (allSplits s ! q)"
    and fo: "frontier_ok s"
    unfolding arena_inv_def by blast+
  obtain g it where sc: "frontier_scan (allSplits s) (frontiers s) 0 0 None = (g, it)"
    by (cases "frontier_scan (allSplits s) (frontiers s) 0 0 None")
  from se sz sc obtain k where it: "it = Some k"
    by (cases it) (auto simp: select_expand_def Let_def)
  from frontier_scan_spec[OF sc] it have k: "k < length (frontiers s)" and pos: "0 < g"
    and g: "g = gain (allSplits s ! (frontiers s ! k))"
    by (simp_all add: scan_inv_def)
  let ?p = "frontiers s ! k"
  let ?old = "allSplits s ! ?p"
  from fo k have p: "?p < length (allSplits s)" by (simp add: frontier_ok_def)
  let ?s1 = "s\<lparr>allSplits := (allSplits s)[?p := ?old\<lparr>selected := True\<rparr>],
                 frontiers := take k (frontiers s) @ drop (Suc k) (frontiers s)\<rparr>"
  let ?tm = "n + 1 = numSplits"
  have okp: "node_ok t (?old\<lparr>selected := True\<rparr>)" using ok p by (simp add: node_ok_def goes_left_fun)
  have posp: "0 < gain (?old\<lparr>selected := True\<rparr>)" using pos g by simp
  let ?l = "filter (goes_left t ?old) (subset ?old)"
  let ?r = "filter (\<lambda>i. \<not> goes_left t ?old i) (subset ?old)"
  have spl: "splitExamples t ((allSplits s)[?p := ?old\<lparr>selected := True\<rparr>] ! ?p) ([], []) = Inr (?l, ?r)"
    using p splitExamples_filter[OF okp posp] by (simp add: goes_left_fun)
  show ?thesis
  proof (cases "getBestSplit t ?l r ?tm ?s1")
    case (Inl b)
    with se sz sc it pos spl have "b = a"
      by (simp add: select_expand_def Let_def)
    with getBestSplit_err[OF Inl] show ?thesis by simp
  next
    case b: (Inr ps)
    obtain pl s2 where ps: "ps = (pl, s2)" by (cases ps)
    show ?thesis
    proof (cases "getBestSplit t ?r r ?tm
        (s2\<lparr>allSplits := (allSplits s2)[?p := (allSplits s2 ! ?p)\<lparr>left := Some pl\<rparr>]\<rparr>)")
      case (Inl c)
      with se sz sc it pos spl b ps have "c = a"
        by (simp add: select_expand_def Let_def)
      with getBestSplit_err[OF Inl] show ?thesis by simp
    next
      case c: (Inr ps3)
      with se sz sc it pos spl b ps have False
        by (cases ps3) (simp add: select_expand_def Let_def)
      then show ?thesis ..
    qed
  qed
qed

lemma do_while_abort:
  "arena_inv t sub0 (snd ns) \<Longrightarrow> int (length (frontiers (snd ns))) = fst ns + 1 \<Longrightarrow>
   do_while t numSplits r ns = Inl a \<Longrightarrow>
     a = Out_of_bounds \<and> int (length (features (ds t))) < numFeatures (ds t)"
proof (induction t numSplits r ns rule: do_while.induct)
  case (1 t numSplits r ns)
  obtain n s where ns: "ns = (n, s)" by (cases ns)
  show ?case
  proof (cases "select_expand t numSplits r ns")
    case (Inl b)
    with "1.prems"(3) have "b = a" by (subst (asm) do_while.simps) simp
    with select_expand_abort[of t sub0 s n numSplits r b] "1.prems"(1,2) Inl ns
    show ?thesis by simp
  next
    case (Inr b)
    obtain brk n1 s1 where b: "b = (brk, n1, s1)" by (cases b)
    from arena_inv_select_expand[of t sub0 s numSplits r n brk n1 s1] "1.prems"(1) Inr b ns
    have inv1: "arena_inv t sub0 (snd (n1, s1))" by simp
    show ?thesis
    proof (cases "\<not> brk \<and> n1 < numSplits")
      case True
      with Inr b ns have se: "select_expand t numSplits r (n, s) = Inr (False, n1, s1)" by simp
      from select_expand_frontier_size[OF se] True
      have sz1: "int (length (frontiers (snd (n1, s1)))) = fst (n1, s1) + 1" by simp
      from "1.prems"(3) Inr b True have "do_while t numSplits r (n1, s1) = Inl a"
        by (subst (asm) do_while.simps) simp
      from "1.IH"[OF Inr _ _ True _ _ this] b inv1 sz1 show ?thesis by simp
    next
      case False
      with "1.prems"(3) Inr b have False
        by (subst (asm) do_while.simps) auto
      then show ?thesis ..
    qed
  qed
qed

lemma getBestSplits_abort:
  assumes "getBestSplits t sub numSplits r s0 = Inl a" and "allSplits s0 = []"
    and "frontiers s0 = []"
  shows "a = Out_of_bounds \<and> int (length (features (ds t))) < numFeatures (ds t)"
proof (cases "getBestSplit t sub r False s0")
  case (Inl b)
  with assms(1) have "b = a" by (simp add: getBestSplits_def)
  with getBestSplit_err[OF Inl] show ?thesis by simp
next
  case (Inr ps)
  obtain p s1 where ps: "ps = (p, s1)" by (cases ps)
  from arena_inv_root[OF Inr[unfolded ps] assms(2,3)]
  have inv: "arena_inv t sub (snd (0::int, s1))" by simp
  from getBestSplit_effect[OF Inr[unfolded ps]] have "frontiers s1 = [p]"
    by (simp add: assms)
  then have sz: "int (length (frontiers (snd (0::int, s1)))) = fst (0::int, s1) + 1" by simp
  from assms(1) Inr ps have "do_while t numSplits r (0, s1) = Inl a"
    by (auto simp: getBestSplits_def split: sum.splits)
  from do_while_abort[OF inv sz this] show ?thesis .
qed

lemma getBestSplits_returns:
  assumes "numFeatures (ds t) \<le> int (length (features (ds t)))" and "allSplits s0 = []"
    and "frontiers s0 = []"
  shows "\<exists>s. getBestSplits t sub numSplits r s0 = Inr (0, s) \<and> arena_inv t sub s"
proof (cases "getBestSplits t sub numSplits r s0")
  case (Inl a)
  from getBestSplits_abort[OF Inl assms(2,3)] assms(1) show ?thesis by simp
next
  case (Inr ps)
  obtain p s where ps: "ps = (p, s)" by (cases ps)
  from getBestSplits_inv[OF Inr[unfolded ps] assms(2,3)] Inr ps show ?thesis by simp
qed

lemma sample_loop_state:
  "allSplits (snd (sample_loop t r i acc)) = allSplits (snd acc)
   \<and> frontiers (snd (sample_loop t r i acc)) = frontiers (snd acc)"
proof (induction t r i acc rule: sample_loop.induct)
  case (1 t r i acc)
  show ?case
  proof (cases "int i < numExamples (ds t)")
    case True
    obtain coin s' where c: "biasedCoinFlip t r (snd acc) = (coin, s')"
      by (cases "biasedCoinFlip t r (snd acc)")
    have s': "allSplits s' = allSplits (snd acc)" "frontiers s' = frontiers (snd acc)"
      using biasedCoinFlip_state[of t r "snd acc"] c by simp_all
    from "1.IH"[OF True c[symmetric]] True c s' show ?thesis
      by (subst (1 2) sample_loop.simps) simp
  next
    case False
    then show ?thesis by (subst (1 2) sample_loop.simps) simp
  qed
qed

lemma sample_loop_rows:
  "\<forall>x\<in>set (fst acc). int x < numExamples (ds t) \<Longrightarrow>
   \<forall>x\<in>set (fst (sample_loop t r i acc)). int x < numExamples (ds t)"
proof (induction t r i acc rule: sample_loop.induct)
  case (1 t r i acc)
  show ?case
  proof (cases "int i < numExamples (ds t)")
    case True
    obtain coin s' where c: "biasedCoinFlip t r (snd acc) = (coin, s')"
      by (cases "biasedCoinFlip t r (snd acc)")
    have "\<forall>x\<in>set (fst (if coin then fst acc @ [i] else fst acc, s')). int x < numExamples (ds t)"
      using "1.prems" True by simp
    from "1.IH"[OF True c[symmetric] this] True c show ?thesis
      by (subst sample_loop.simps) simp
  next
    case False
    with "1.prems" show ?thesis by (subst sample_loop.simps) simp
  qed
qed

section \<open>Growth on the four rows\<close>

lemma four_rows_root_eval:
  "getBestSplit four_rows [0, 1, 2, 3] 1 False fresh = Inr (0, four_rows_root)"
  by code_simp

lemma four_rows_mid_eval:
  "select_expand four_rows 2 1 (0, four_rows_root) = Inr (False, 1, four_rows_mid)"
  by code_simp

lemma four_rows_last_eval:
  "select_expand four_rows 1 1 (0, four_rows_root) = Inr (False, 1, four_rows_last)"
  by code_simp

lemma four_rows_scan_mid:
  "frontier_scan (allSplits four_rows_mid) (frontiers four_rows_mid) 0 0 None = (1 / 2, Some 0)"
  by code_simp

section \<open>The frontier during growth\<close>

text \<open>
  Claim C3, as stated, fails: the expansion whose children are terminal takes the selected
  node off the frontier and puts nothing on it. On the four rows with \<open>numSplits = 1\<close> the
  growth call ends with one selected node and an empty frontier.
\<close>

theorem frontier_empty_after_terminal_expansion:
  "getBestSplits four_rows [0, 1, 2, 3] 1 1 fresh = Inr (0, four_rows_last)
   \<and> select_expand four_rows 1 1 (0, four_rows_root) = Inr (False, 1, four_rows_last)
   \<and> length (filter selected (allSplits four_rows_last)) = 1
   \<and> length (frontiers four_rows_last) = 0
   \<and> length (frontiers four_rows_last) \<noteq> length (filter selected (allSplits four_rows_last)) + 1"
proof -
  have 1: "getBestSplits four_rows [0, 1, 2, 3] 1 1 fresh = Inr (0, four_rows_last)"
    by code_simp
  have 2: "length (filter selected (allSplits four_rows_last)) = 1"
    by code_simp
  have 3: "length (frontiers four_rows_last) = 0"
    by code_simp
  from 1 four_rows_last_eval 2 3 show ?thesis by simp
qed

text \<open>
  Claim C3, amended. An iteration of the loop of \<^verbatim>\<open>getBestSplits\<close> that gets past its
  first \<^verbatim>\<open>CHECK\<close> started with a frontier of \<open>numSelected + 1\<close> entries. If it breaks,
  nothing changed. If it expands a node, \<open>numSelected\<close> grows by one, and the frontier
  then has \<open>numSelected + 1\<close> entries when the children are not terminal, and
  \<open>numSelected - 1\<close> entries when they are (\<open>numSelected = numSplits\<close>; the loop ends
  there). A growth call on a fresh regressor never fails the frontier-size \<^verbatim>\<open>CHECK\<close>.
\<close>

theorem frontier_size_at_check:
  "(select_expand t numSplits r (n, s) = Inr (brk, n', s') \<longrightarrow>
      int (length (frontiers s)) = n + 1 \<and>
      (if brk then n' = n \<and> s' = s
       else n' = n + 1 \<and>
            int (length (frontiers s')) = (if n' = numSplits then n' - 1 else n' + 1)))
   \<and> getBestSplits t sub numSplits r fresh \<noteq> Inl (CHECK_failed Frontier_size)"
proof (intro conjI impI)
  assume se: "select_expand t numSplits r (n, s) = Inr (brk, n', s')"
  show "int (length (frontiers s)) = n + 1"
    using se select_expand_break[of t numSplits r n s n' s']
      select_expand_frontier_size[of t numSplits r n s n' s']
    by (cases brk) simp_all
  show "if brk then n' = n \<and> s' = s
       else n' = n + 1 \<and>
            int (length (frontiers s')) = (if n' = numSplits then n' - 1 else n' + 1)"
    using se select_expand_break[of t numSplits r n s n' s']
      select_expand_frontier_size[of t numSplits r n s n' s']
    by (cases brk) simp_all
next
  show "getBestSplits t sub numSplits r fresh \<noteq> Inl (CHECK_failed Frontier_size)"
    by (rule getBestSplits_no_frontier_failure) (simp_all add: fresh_def)
qed

text \<open>The theorem at the expansion of the root of the four rows with \<open>numSplits = 1\<close>.\<close>

theorem frontier_size_at_check_witness:
  "select_expand four_rows 1 1 (0, four_rows_root) = Inr (False, 1, four_rows_last)
   \<and> int (length (frontiers four_rows_root)) = 0 + 1
   \<and> int (length (frontiers four_rows_last)) = 1 - 1
   \<and> getBestSplits four_rows [0, 1, 2, 3] 1 1 fresh \<noteq> Inl (CHECK_failed Frontier_size)"
  using frontier_size_at_check[of four_rows 1 1 0 four_rows_root False 1 four_rows_last
      "[0, 1, 2, 3]"] four_rows_last_eval
  by simp

text \<open>
  Claim C4 fails on the code at \<open>numSplits = 0\<close>: the body of the \<^verbatim>\<open>do\<close> loop runs
  before the budget is tested, so on the four rows \<^verbatim>\<open>getBestSplits\<close> with
  \<open>numSplits = 0\<close> selects and expands the root, and \<^verbatim>\<open>getTree\<close> with
  \<open>numLeaves = 1\<close> returns a tree of two leaves.
\<close>

theorem getBestSplits_zero_budget_expands:
  "getBestSplits four_rows [0, 1, 2, 3] 0 1 fresh = Inr (0, four_rows_mid)
   \<and> length (filter selected (allSplits four_rows_mid)) = 1
   \<and> getTree four_rows 1 1 1 [0] fresh =
       Some (Inr (Some (PartitionNode 0 1 (11 / 2)
                          (Some (LeafNode (1 / 2))) (Some (LeafNode (21 / 2)))),
                  [100], four_rows_mid\<lparr>rand_calls := 7\<rparr>))"
proof -
  have 1: "getBestSplits four_rows [0, 1, 2, 3] 0 1 fresh = Inr (0, four_rows_mid)"
    by code_simp
  have 2: "length (filter selected (allSplits four_rows_mid)) = 1"
    by code_simp
  have 3: "getTree four_rows 1 1 1 [0] fresh =
       Some (Inr (Some (PartitionNode 0 1 (11 / 2)
                          (Some (LeafNode (1 / 2))) (Some (LeafNode (21 / 2)))),
                  [100], four_rows_mid\<lparr>rand_calls := 7\<rparr>))"
    by code_simp
  from 1 2 3 show ?thesis by simp
qed

section \<open>The choice among the frontier\<close>

text \<open>
  Claim C5, as stated, fails on ties: after the root of the four rows is expanded with
  \<open>numSplits = 2\<close>, the frontier holds two candidates of gain \<open>1 / 2\<close>; the search
  chooses the first, whose gain is not strictly greater than the other's.
\<close>

theorem frontier_choice_tie:
  "getBestSplit four_rows [0, 1, 2, 3] 1 False fresh = Inr (0, four_rows_root)
   \<and> select_expand four_rows 2 1 (0, four_rows_root) = Inr (False, 1, four_rows_mid)
   \<and> frontiers four_rows_mid = [1, 2]
   \<and> frontier_scan (allSplits four_rows_mid) (frontiers four_rows_mid) 0 0 None = (1 / 2, Some 0)
   \<and> \<not> gain (allSplits four_rows_mid ! 2) < gain (allSplits four_rows_mid ! 1)"
proof -
  have 1: "frontiers four_rows_mid = [1, 2]"
    by code_simp
  have 2: "\<not> gain (allSplits four_rows_mid ! 2) < gain (allSplits four_rows_mid ! 1)"
    by code_simp
  from four_rows_root_eval four_rows_mid_eval 1 four_rows_scan_mid 2 show ?thesis by simp
qed

text \<open>
  Claim C5, amended. In a state that growth reaches, at an iteration that passes the
  frontier-size check: when some frontier member has a positive gain, the iteration
  does not break; the node it marks selected and takes off the frontier is the frontier
  member at the position the search returned, whose gain is positive, at least the gain
  of every frontier member, and strictly greater than the gain of every member before it
  in frontier order (ties go to the first); no other node of the arena changes its
  selection mark. When no frontier member has a positive gain, the iteration breaks:
  nothing is selected and the state is unchanged.
\<close>

theorem select_expand_chooses_first_best:
  assumes inv: "arena_inv t sub0 s"
    and cons: "numFeatures (ds t) \<le> int (length (features (ds t)))"
    and sz: "int (length (frontiers s)) = n + 1"
  shows "if \<exists>j<length (frontiers s). 0 < gain (allSplits s ! (frontiers s ! j))
         then \<exists>k s'. k < length (frontiers s)
              \<and> select_expand t numSplits r (n, s) = Inr (False, n + 1, s')
              \<and> 0 < gain (allSplits s ! (frontiers s ! k))
              \<and> (\<forall>j<length (frontiers s).
                    gain (allSplits s ! (frontiers s ! j)) \<le> gain (allSplits s ! (frontiers s ! k)))
              \<and> (\<forall>j<k. gain (allSplits s ! (frontiers s ! j)) < gain (allSplits s ! (frontiers s ! k)))
              \<and> selected (allSplits s' ! (frontiers s ! k))
              \<and> (\<forall>q<length (allSplits s). q \<noteq> frontiers s ! k \<longrightarrow>
                    selected (allSplits s' ! q) = selected (allSplits s ! q))
              \<and> frontiers s ! k \<notin> set (frontiers s')
         else select_expand t numSplits r (n, s) = Inr (True, n, s)"
proof -
  let ?fr = "frontiers s" and ?ns = "allSplits s"
  from inv have ok: "\<forall>q<length ?ns. node_ok t (?ns ! q)" and fo: "frontier_ok s"
    unfolding arena_inv_def by blast+
  from fo have valid: "\<forall>q\<in>set ?fr. q < length ?ns" and d: "distinct ?fr"
    by (simp_all add: frontier_ok_def)
  obtain g it where sc: "frontier_scan ?ns ?fr 0 0 None = (g, it)"
    by (cases "frontier_scan ?ns ?fr 0 0 None")
  note sp = frontier_scan_spec[OF sc]
  show ?thesis
  proof (cases it)
    case None
    with sp have "\<forall>j<length ?fr. gain (?ns ! (?fr ! j)) \<le> 0"
      by (auto simp: scan_inv_def)
    then have no: "\<not> (\<exists>j<length ?fr. 0 < gain (?ns ! (?fr ! j)))"
      by (meson not_less)
    have "select_expand t numSplits r (n, s) = Inr (True, n, s)"
      using sz sc None by (simp add: select_expand_def Let_def)
    then show ?thesis
      unfolding if_not_P[OF no] .
  next
    case (Some k)
    with sp have k: "k < length ?fr" and g: "g = gain (?ns ! (?fr ! k))" and pos: "0 < g"
      and all: "\<forall>j<length ?fr. gain (?ns ! (?fr ! j)) \<le> g"
      and before: "\<forall>j<k. gain (?ns ! (?fr ! j)) < g"
      by (auto simp: scan_inv_def)
    from k pos g have yes: "\<exists>j<length ?fr. 0 < gain (?ns ! (?fr ! j))" by blast
    let ?p = "?fr ! k"
    from k valid have p: "?p < length ?ns" by simp
    obtain brk n' s' where se: "select_expand t numSplits r (n, s) = Inr (brk, n', s')"
    proof (cases "select_expand t numSplits r (n, s)")
      case (Inl a)
      from select_expand_abort[OF inv sz Inl] cons show ?thesis by simp
    next
      case (Inr b)
      with that show ?thesis by (cases b) auto
    qed
    have nb: "\<not> brk"
    proof
      assume brk
      with se select_expand_break[of t numSplits r n s n' s'] sc Some show False by simp
    qed
    with se have se': "select_expand t numSplits r (n, s) = Inr (False, n', s')" by simp
    from se' valid ok obtain k' nl nr where
      sc': "frontier_scan ?ns ?fr 0 0 None = (gain (?ns ! (?fr ! k')), Some k')"
      and n': "n' = n + 1"
      and A: "allSplits s' = ?ns[?fr ! k' :=
          (?ns ! (?fr ! k'))\<lparr>selected := True, left := Some (length ?ns),
             right := Some (Suc (length ?ns))\<rparr>] @ [nl, nr]"
      and F: "frontiers s' = take k' ?fr @ drop (Suc k') ?fr
          @ (if n' = numSplits then [] else [length ?ns, Suc (length ?ns)])"
      by (rule select_expand_effect)
    from sc sc' Some have kk: "k' = k" by simp
    have sel: "selected (allSplits s' ! ?p)"
      using p by (simp add: A kk nth_append)
    have others: "\<forall>q<length ?ns. q \<noteq> ?p \<longrightarrow> selected (allSplits s' ! q) = selected (?ns ! q)"
      by (simp add: A kk nth_append)
    from distinct_remove_nth[OF d k] have "?p \<notin> set (take k ?fr @ drop (Suc k) ?fr)" by blast
    with p have gone: "?p \<notin> set (frontiers s')"
      by (auto simp: F kk)
    from k se' n' pos g all before sel others gone
    have "\<exists>k s'. k < length ?fr
              \<and> select_expand t numSplits r (n, s) = Inr (False, n + 1, s')
              \<and> 0 < gain (?ns ! (?fr ! k))
              \<and> (\<forall>j<length ?fr. gain (?ns ! (?fr ! j)) \<le> gain (?ns ! (?fr ! k)))
              \<and> (\<forall>j<k. gain (?ns ! (?fr ! j)) < gain (?ns ! (?fr ! k)))
              \<and> selected (allSplits s' ! (?fr ! k))
              \<and> (\<forall>q<length ?ns. q \<noteq> ?fr ! k \<longrightarrow>
                    selected (allSplits s' ! q) = selected (?ns ! q))
              \<and> ?fr ! k \<notin> set (frontiers s')"
      by blast
    then show ?thesis
      unfolding if_P[OF yes] .
  qed
qed

text \<open>The theorem at the tied frontier of the four rows: the first of the two candidates
  of gain \<open>1 / 2\<close> is selected.\<close>

lemma four_rows_mid_inv: "arena_inv four_rows [0, 1, 2, 3] four_rows_mid"
proof -
  have "getBestSplits four_rows [0, 1, 2, 3] 0 1 fresh = Inr (0, four_rows_mid)"
    by code_simp
  from getBestSplits_inv[OF this] show ?thesis by (simp add: fresh_def)
qed

lemma four_rows_mid_step:
  "select_expand four_rows 2 1 (1, four_rows_mid) = Inr (False, 2, four_rows_two\<lparr>rand_calls := 3\<rparr>)"
  by code_simp

theorem select_expand_chooses_first_best_witness:
  "arena_inv four_rows [0, 1, 2, 3] four_rows_mid
   \<and> numFeatures (ds four_rows) \<le> int (length (features (ds four_rows)))
   \<and> int (length (frontiers four_rows_mid)) = 1 + 1
   \<and> (\<exists>k s'. k < length (frontiers four_rows_mid)
        \<and> select_expand four_rows 2 1 (1, four_rows_mid) = Inr (False, 1 + 1, s')
        \<and> 0 < gain (allSplits four_rows_mid ! (frontiers four_rows_mid ! k))
        \<and> selected (allSplits s' ! (frontiers four_rows_mid ! k))
        \<and> frontiers four_rows_mid ! k \<notin> set (frontiers s'))"
proof -
  have cons: "numFeatures (ds four_rows) \<le> int (length (features (ds four_rows)))"
    by (simp add: four_rows_def four_rows_ds_def)
  have sz: "int (length (frontiers four_rows_mid)) = 1 + 1"
    by (simp add: four_rows_mid_def)
  have yes: "\<exists>j<length (frontiers four_rows_mid).
      0 < gain (allSplits four_rows_mid ! (frontiers four_rows_mid ! j))"
    by (intro exI[of _ 0]) (simp add: four_rows_mid_def)
  from select_expand_chooses_first_best[OF four_rows_mid_inv cons sz, of 2 1]
  have "\<exists>k s'. k < length (frontiers four_rows_mid)
        \<and> select_expand four_rows 2 1 (1, four_rows_mid) = Inr (False, 1 + 1, s')
        \<and> 0 < gain (allSplits four_rows_mid ! (frontiers four_rows_mid ! k))
        \<and> selected (allSplits s' ! (frontiers four_rows_mid ! k))
        \<and> frontiers four_rows_mid ! k \<notin> set (frontiers s')"
    unfolding if_P[OF yes] by blast
  with four_rows_mid_inv cons sz show ?thesis by blast
qed


section \<open>Partitions\<close>

lemma filter_partition:
  "set (filter P xs) \<inter> set (filter (\<lambda>i. \<not> P i) xs) = {}
   \<and> mset (filter P xs) + mset (filter (\<lambda>i. \<not> P i) xs) = mset xs"
  by (induction xs) auto

text \<open>
  Claim C2. After a growth call on a regressor with an empty arena and frontier, every
  selected node has two children in the arena whose subsets are what \<^verbatim>\<open>splitExamples\<close>
  returns for it: they are disjoint, together they hold every row of the node's subset
  exactly as often as the subset does, the left one holds the rows whose encoded value
  for the node's feature is at most the node's threshold, in subset order, and the right
  one the others.
\<close>

theorem split_partitions_subset:
  assumes "getBestSplits t sub numSplits r s0 = Inr (rootSplit, s)"
    and "allSplits s0 = []" and "frontiers s0 = []"
    and "p < length (allSplits s)" and "selected (allSplits s ! p)"
  shows "\<exists>l rr. left (allSplits s ! p) = Some l \<and> right (allSplits s ! p) = Some rr
     \<and> l < length (allSplits s) \<and> rr < length (allSplits s)
     \<and> splitExamples t (allSplits s ! p) ([], [])
         = Inr (subset (allSplits s ! l), subset (allSplits s ! rr))
     \<and> set (subset (allSplits s ! l)) \<inter> set (subset (allSplits s ! rr)) = {}
     \<and> mset (subset (allSplits s ! l)) + mset (subset (allSplits s ! rr))
         = mset (subset (allSplits s ! p))
     \<and> subset (allSplits s ! l)
         = filter (\<lambda>i. code_of (features (ds t) ! nat (fid (allSplits s ! p))) i
                         \<le> unat (fv (allSplits s ! p))) (subset (allSplits s ! p))
     \<and> subset (allSplits s ! rr)
         = filter (\<lambda>i. \<not> code_of (features (ds t) ! nat (fid (allSplits s ! p))) i
                         \<le> unat (fv (allSplits s ! p))) (subset (allSplits s ! p))"
proof -
  let ?n = "allSplits s ! p"
  from getBestSplits_inv[OF assms(1,2,3)] have inv: "arena_inv t sub s" by simp
  then have lk: "linked t (allSplits s)" and ok: "node_ok t ?n"
    using assms(4) unfolding arena_inv_def by blast+
  from lk assms(4,5) obtain l rr where g: "0 < gain ?n"
    and c: "left ?n = Some l" "right ?n = Some rr" "p < l" "l < rr" "rr < length (allSplits s)"
      "subset (allSplits s ! l) = filter (goes_left t ?n) (subset ?n)"
      "subset (allSplits s ! rr) = filter (\<lambda>i. \<not> goes_left t ?n i) (subset ?n)"
    unfolding linked_def by (metis (no_types, lifting))
  from c have l: "l < length (allSplits s)" by simp
  have sp: "splitExamples t ?n ([], [])
         = Inr (subset (allSplits s ! l), subset (allSplits s ! rr))"
    using splitExamples_filter[OF ok g] c(6,7) by simp
  from filter_partition[of "goes_left t ?n" "subset ?n"]
  have part: "set (subset (allSplits s ! l)) \<inter> set (subset (allSplits s ! rr)) = {}"
     "mset (subset (allSplits s ! l)) + mset (subset (allSplits s ! rr)) = mset (subset ?n)"
    unfolding c(6,7) by simp_all
  from c(1,2) l c(5) sp part c(6,7) show ?thesis
    unfolding goes_left_fun by blast
qed


text \<open>The theorem at the root of the four rows, grown with \<open>numSplits = 1\<close>.\<close>

lemma four_rows_growth_one:
  "getBestSplits four_rows [0, 1, 2, 3] 1 1 fresh = Inr (0, four_rows_last)"
  by code_simp

theorem split_partitions_subset_witness:
  "getBestSplits four_rows [0, 1, 2, 3] 1 1 fresh = Inr (0, four_rows_last)
   \<and> allSplits fresh = [] \<and> frontiers fresh = []
   \<and> 0 < length (allSplits four_rows_last) \<and> selected (allSplits four_rows_last ! 0)
   \<and> (\<exists>l rr. left (allSplits four_rows_last ! 0) = Some l
     \<and> right (allSplits four_rows_last ! 0) = Some rr
     \<and> l < length (allSplits four_rows_last) \<and> rr < length (allSplits four_rows_last)
     \<and> splitExamples four_rows (allSplits four_rows_last ! 0) ([], [])
         = Inr (subset (allSplits four_rows_last ! l), subset (allSplits four_rows_last ! rr))
     \<and> set (subset (allSplits four_rows_last ! l))
          \<inter> set (subset (allSplits four_rows_last ! rr)) = {}
     \<and> mset (subset (allSplits four_rows_last ! l)) + mset (subset (allSplits four_rows_last ! rr))
         = mset (subset (allSplits four_rows_last ! 0))
     \<and> subset (allSplits four_rows_last ! l)
         = filter (\<lambda>i. code_of (features (ds four_rows) ! nat (fid (allSplits four_rows_last ! 0))) i
                         \<le> unat (fv (allSplits four_rows_last ! 0)))
             (subset (allSplits four_rows_last ! 0))
     \<and> subset (allSplits four_rows_last ! rr)
         = filter (\<lambda>i. \<not> code_of (features (ds four_rows) ! nat (fid (allSplits four_rows_last ! 0))) i
                         \<le> unat (fv (allSplits four_rows_last ! 0)))
             (subset (allSplits four_rows_last ! 0)))"
proof -
  have a: "allSplits fresh = []" and f: "frontiers fresh = []" by (simp_all add: fresh_def)
  have p: "0 < length (allSplits four_rows_last)" by (simp add: four_rows_last_def)
  have sel: "selected (allSplits four_rows_last ! 0)" by (simp add: four_rows_last_def)
  from split_partitions_subset[OF four_rows_growth_one a f p sel] four_rows_growth_one a f p sel
  show ?thesis by blast
qed



section \<open>Feature importances\<close>

lemma shaped_fuel:
  assumes "shaped ns"
  obtains tr where "top tr = 0" "tree_at ns tr" "height tr \<le> length ns"
    "distinct (labels tr)" "set (labels tr) = {..<length ns}"
proof -
  from assms obtain tr where tr: "top tr = 0" "tree_at ns tr" "distinct (labels tr)"
    "set (labels tr) = {..<length ns}"
    unfolding shaped_def by blast
  have "length (labels tr) = card (set (labels tr))" using tr(3) by (simp add: distinct_card)
  also have "\<dots> = length ns" using tr(4) by simp
  finally have "height tr \<le> length ns" using height_le_labels[of tr] by simp
  with tr that show ?thesis by blast
qed

lemma arena_selected:
  assumes "arena_inv t sub s" "n \<in> set (allSplits s)"
  shows "node_ok t n \<and> (selected n \<longrightarrow> 0 < gain n)"
proof -
  from assms(2) obtain p where p: "p < length (allSplits s)" "allSplits s ! p = n"
    by (auto simp: in_set_conv_nth)
  from assms(1) p have "node_ok t n" unfolding arena_inv_def by blast
  moreover from assms(1) p have "selected n \<longrightarrow> 0 < gain n"
    unfolding arena_inv_def linked_def by (metis (no_types, lifting))
  ultimately show ?thesis by blast
qed

lemma arena_internal_fid:
  assumes inv: "arena_inv t sub s" and tr: "tree_at (allSplits s) tr"
    and lb: "set (labels tr) = {..<length (allSplits s)}"
  shows "\<forall>p\<in>set (internal tr). 0 \<le> fid (allSplits s ! p)
      \<and> fid (allSplits s ! p) < numFeatures (ds t)"
proof
  fix p assume "p \<in> set (internal tr)"
  then have "p \<in> set (labels tr)" "selected (allSplits s ! p)"
    unfolding internal_selected[OF tr] by simp_all
  with lb have "allSplits s ! p \<in> set (allSplits s)" by simp
  from arena_selected[OF inv this] \<open>selected (allSplits s ! p)\<close>
  show "0 \<le> fid (allSplits s ! p) \<and> fid (allSplits s ! p) < numFeatures (ds t)"
    by (simp add: node_ok_def)
qed

lemma getTree_Inr:
  assumes g: "getTree t numLeaves er fr fimps s0 = Some (Inr (tree, fimps', s'))"
    and a: "allSplits s0 = []" and f: "frontiers s0 = []"
  obtains sub s1 where "sample_loop t er 0 ([], s0) = (sub, s1)"
    "as_size_t (int32 (FLAGS_min_leaf_examples t * numLeaves)) \<le> int (length sub)"
    "getBestSplits t sub (int32 (numLeaves - 1)) fr s1 = Inr (0, s')"
    "arena_inv t sub s'"
    "getTreeHelper (length (allSplits s')) t (allSplits s') (Some 0) fimps
       = Some (Inr (tree, fimps'))"
proof -
  obtain sub s1 where sl: "sample_loop t er 0 ([], s0) = (sub, s1)"
    by (cases "sample_loop t er 0 ([], s0)")
  from sample_loop_state[of t er 0 "([], s0)"] sl a f
  have p1: "allSplits s1 = []" "frontiers s1 = []" by simp_all
  from g sl have ck: "as_size_t (int32 (FLAGS_min_leaf_examples t * numLeaves)) \<le> int (length sub)"
    by (auto simp: getTree_def split: if_splits)
  from g sl ck obtain rootSplit s2 where
    gb: "getBestSplits t sub (int32 (numLeaves - 1)) fr s1 = Inr (rootSplit, s2)"
    by (auto simp: getTree_def split: sum.splits)
  from getBestSplits_inv[OF gb p1] have r0: "rootSplit = 0" and inv: "arena_inv t sub s2"
    by simp_all
  from g sl ck gb r0 have s': "s' = s2"
    and gh: "getTreeHelper (length (allSplits s2)) t (allSplits s2) (Some 0) fimps
       = Some (Inr (tree, fimps'))"
    by (auto simp: getTree_def split: option.splits sum.splits)
  from that[OF sl ck] gb r0 inv s' gh show ?thesis by simp
qed

text \<open>
  Claim C8. When \<^verbatim>\<open>getTree\<close> on a regressor with an empty arena and frontier returns a
  tree, every entry \<open>f\<close> of the importances has grown by the sum of the gains of the
  selected nodes whose feature is \<open>f\<close>; every selected node has a positive gain, so no
  entry decreases; an entry whose feature no selected node splits on is unchanged; and the
  array keeps its length. Sums are sums of reals.
\<close>

theorem importances_accumulate_gains:
  assumes "getTree t numLeaves er fr fimps s0 = Some (Inr (tree, fimps', s'))"
    and "allSplits s0 = []" and "frontiers s0 = []" and "f < length fimps"
  shows "fimps' ! f
       = fimps ! f + sum_list (map gain (filter (\<lambda>n. selected n \<and> fid n = int f) (allSplits s')))
     \<and> (\<forall>n\<in>set (allSplits s'). selected n \<longrightarrow> 0 < gain n)
     \<and> fimps ! f \<le> fimps' ! f
     \<and> ((\<forall>n\<in>set (allSplits s'). selected n \<longrightarrow> fid n \<noteq> int f) \<longrightarrow> fimps' ! f = fimps ! f)
     \<and> length fimps' = length fimps"
proof -
  let ?ns = "allSplits s'"
  from assms(1,2,3) obtain sub where inv: "arena_inv t sub s'"
    and gh: "getTreeHelper (length ?ns) t ?ns (Some 0) fimps = Some (Inr (tree, fimps'))"
    by (rule getTree_Inr)
  from inv have "shaped ?ns" unfolding arena_inv_def by blast
  then obtain tr where tr: "top tr = 0" "tree_at ?ns tr" "distinct (labels tr)"
    "set (labels tr) = {..<length ?ns}"
    by (rule shaped_fuel)
  from getTreeHelper_add_gains[OF tr(2), of "length ?ns" t fimps tree fimps'] gh tr(1)
  have f': "fimps' = add_gains ?ns tr fimps" by simp
  from arena_internal_fid[OF inv tr(2,4)]
  have nn: "\<forall>p\<in>set (internal tr). 0 \<le> fid (?ns ! p)" by blast
  have "fimps' ! f = fimps ! f + sum_list (map (\<lambda>p. gain (?ns ! p))
                      (filter (\<lambda>p. fid (?ns ! p) = int f) (internal tr)))"
    unfolding f' using add_gains_nth[OF assms(4) nn] .
  also have "filter (\<lambda>p. fid (?ns ! p) = int f) (internal tr)
      = filter (\<lambda>p. selected (?ns ! p) \<and> fid (?ns ! p) = int f) (labels tr)"
    unfolding internal_selected[OF tr(2)] by (simp add: conj_commute)
  also have "sum_list (map (\<lambda>p. gain (?ns ! p))
        (filter (\<lambda>p. selected (?ns ! p) \<and> fid (?ns ! p) = int f) (labels tr)))
      = sum_list (map gain (filter (\<lambda>n. selected n \<and> fid n = int f) ?ns))"
    using sum_over_arena[OF tr(3,4), of gain "\<lambda>n. selected n \<and> fid n = int f"] .
  finally have 1: "fimps' ! f
       = fimps ! f + sum_list (map gain (filter (\<lambda>n. selected n \<and> fid n = int f) ?ns))" .
  have 2: "\<forall>n\<in>set ?ns. selected n \<longrightarrow> 0 < gain n"
    using arena_selected[OF inv] by blast
  have "0 \<le> sum_list (map gain (filter (\<lambda>n. selected n \<and> fid n = int f) ?ns))"
    using 2 by (intro sum_list_nonneg) auto
  with 1 have 3: "fimps ! f \<le> fimps' ! f" by linarith
  have 4: "fimps' ! f = fimps ! f" if "\<forall>n\<in>set ?ns. selected n \<longrightarrow> fid n \<noteq> int f"
  proof -
    from that have "filter (\<lambda>n. selected n \<and> fid n = int f) ?ns = []"
      by (auto simp: filter_empty_conv)
    with 1 show ?thesis by simp
  qed
  have 5: "length fimps' = length fimps" unfolding f' by (rule length_add_gains)
  from 1 2 3 4 5 show ?thesis by blast
qed

text \<open>The theorem at \<^verbatim>\<open>getTree\<close> with three leaves on the four rows: two selected nodes
  split on feature 0, with gains \<open>100\<close> and \<open>1 / 2\<close>.\<close>

lemma four_rows_getTree_three:
  "getTree four_rows 3 1 1 [0] fresh =
     Some (Inr (Some (PartitionNode 0 1 (11 / 2)
                  (Some (PartitionNode 0 0 (1 / 2) (Some (LeafNode 0)) (Some (LeafNode 1))))
                  (Some (LeafNode (21 / 2)))),
                [201 / 2], four_rows_two))"
  by code_simp

theorem importances_accumulate_gains_witness:
  "getTree four_rows 3 1 1 [0] fresh =
     Some (Inr (Some (PartitionNode 0 1 (11 / 2)
                  (Some (PartitionNode 0 0 (1 / 2) (Some (LeafNode 0)) (Some (LeafNode 1))))
                  (Some (LeafNode (21 / 2)))),
                [201 / 2], four_rows_two))
   \<and> allSplits fresh = [] \<and> frontiers fresh = [] \<and> (0::nat) < length [0::real]
   \<and> [201 / 2] ! 0 = [0] ! 0
        + sum_list (map gain (filter (\<lambda>n. selected n \<and> fid n = int 0) (allSplits four_rows_two)))
   \<and> length [201 / 2 :: real] = length [0::real]"
proof -
  have a: "allSplits fresh = []" and f: "frontiers fresh = []" by (simp_all add: fresh_def)
  have l: "(0::nat) < length [0::real]" by simp
  from importances_accumulate_gains[OF four_rows_getTree_three a f l] four_rows_getTree_three a f l
  show ?thesis by blast
qed


section \<open>Leaf sizes\<close>

lemma getTree_after_check:
  assumes cons: "numFeatures (ds t) \<le> int (length (features (ds t)))"
    and fl: "numFeatures (ds t) \<le> int (length fimps)"
    and a: "allSplits s0 = []" and f: "frontiers s0 = []"
    and sl: "sample_loop t er 0 ([], s0) = (sub, s1)"
    and ck: "as_size_t (int32 (FLAGS_min_leaf_examples t * numLeaves)) \<le> int (length sub)"
  obtains s2 where "arena_inv t sub s2" "rows_ok t sub"
    "(\<exists>tree fimps'. getTree t numLeaves er fr fimps s0 = Some (Inr (Some tree, fimps', s2)))
     \<or> (getTree t numLeaves er fr fimps s0 = Some (Inl (CHECK_failed Leaf_subset_size))
        \<and> (\<exists>n\<in>set (allSplits s2).
             \<not> as_size_t (FLAGS_min_leaf_examples t) \<le> int (length (subset n))))"
proof -
  from sample_loop_state[of t er 0 "([], s0)"] sl a f
  have p1: "allSplits s1 = []" "frontiers s1 = []" by simp_all
  from sample_loop_rows[of "([], s0)" t er 0] sl have ro: "rows_ok t sub"
    by (simp add: rows_ok_def)
  from getBestSplits_returns[OF cons p1, of sub "int32 (numLeaves - 1)" fr] obtain s2 where
    gb: "getBestSplits t sub (int32 (numLeaves - 1)) fr s1 = Inr (0, s2)" and inv: "arena_inv t sub s2"
    by blast
  let ?ns = "allSplits s2"
  from inv have "shaped ?ns" unfolding arena_inv_def by blast
  then obtain tr where tr: "top tr = 0" "tree_at ?ns tr" "height tr \<le> length ?ns"
    "distinct (labels tr)" "set (labels tr) = {..<length ?ns}"
    by (rule shaped_fuel)
  from arena_internal_fid[OF inv tr(2,5)] fl
  have iv: "\<forall>p\<in>set (internal tr). 0 \<le> fid (?ns ! p) \<and> fid (?ns ! p) < int (length fimps)"
    by fastforce
  have gt: "getTree t numLeaves er fr fimps s0
      = (case getTreeHelper (length ?ns) t ?ns (Some 0) fimps of
           None \<Rightarrow> None
         | Some (Inl a) \<Rightarrow> Some (Inl a)
         | Some (Inr (tree, fimps')) \<Rightarrow> Some (Inr (tree, fimps', s2)))"
    using sl ck gb by (simp add: getTree_def)
  from getTreeHelper_total[OF tr(2,3) iv, of t] tr(1)
  have "(\<exists>x. getTreeHelper (length ?ns) t ?ns (Some 0) fimps
            = Some (Inr (Some x, add_gains ?ns tr fimps)))
   \<or> (getTreeHelper (length ?ns) t ?ns (Some 0) fimps = Some (Inl (CHECK_failed Leaf_subset_size))
       \<and> (\<exists>p\<in>set (leaves tr).
            \<not> as_size_t (FLAGS_min_leaf_examples t) \<le> int (length (subset (?ns ! p)))))"
    by simp
  then have "(\<exists>tree fimps'. getTree t numLeaves er fr fimps s0 = Some (Inr (Some tree, fimps', s2)))
     \<or> (getTree t numLeaves er fr fimps s0 = Some (Inl (CHECK_failed Leaf_subset_size))
        \<and> (\<exists>n\<in>set ?ns. \<not> as_size_t (FLAGS_min_leaf_examples t) \<le> int (length (subset n))))"
  proof
    assume "\<exists>x. getTreeHelper (length ?ns) t ?ns (Some 0) fimps
            = Some (Inr (Some x, add_gains ?ns tr fimps))"
    then show ?thesis unfolding gt by auto
  next
    assume b: "getTreeHelper (length ?ns) t ?ns (Some 0) fimps = Some (Inl (CHECK_failed Leaf_subset_size))
       \<and> (\<exists>p\<in>set (leaves tr).
            \<not> as_size_t (FLAGS_min_leaf_examples t) \<le> int (length (subset (?ns ! p))))"
    then obtain p where p: "p \<in> set (leaves tr)"
      "\<not> as_size_t (FLAGS_min_leaf_examples t) \<le> int (length (subset (?ns ! p)))"
      by blast
    from p(1) leaves_labels[of tr] tr(5) have "?ns ! p \<in> set ?ns" by auto
    with p(2) b show ?thesis unfolding gt by auto
  qed
  from that[OF inv ro this] show ?thesis .
qed

lemma as_size_t_id: "0 \<le> x \<Longrightarrow> x < 2 ^ 31 \<Longrightarrow> as_size_t x = x"
proof -
  assume a: "0 \<le> x" "x < 2 ^ 31"
  have "(2::int) ^ 31 \<le> 2 ^ 64" by simp
  with a have "x < 2 ^ 64" by linarith
  with a(1) show ?thesis by (simp add: as_size_t_def)
qed

text \<open>
  Claim C6. On well-formed data, with \<open>min_leaf_examples \<ge> 1\<close>, \<open>numLeaves \<ge> 1\<close>, a
  product of the two that fits an \<^verbatim>\<open>int\<close>, importances for every feature and a regressor
  with an empty arena and frontier: when the sampled subset has at least
  \<open>min_leaf_examples * numLeaves\<close> rows, \<^verbatim>\<open>getTree\<close> returns a tree (no \<^verbatim>\<open>CHECK\<close> fails,
  in particular not the one on the size of a leaf's subset), and every node of the arena,
  so every candidate a leaf is materialised from, owns at least \<open>min_leaf_examples\<close> rows.
\<close>

theorem leaves_hold_min_leaf_examples:
  assumes wf: "ds_wf t"
    and cons: "numFeatures (ds t) \<le> int (length (features (ds t)))"
    and fl: "numFeatures (ds t) \<le> int (length fimps)"
    and m1: "1 \<le> FLAGS_min_leaf_examples t" and nl: "1 \<le> numLeaves"
    and prod: "FLAGS_min_leaf_examples t * numLeaves < 2 ^ 31"
    and a: "allSplits s0 = []" and f: "frontiers s0 = []"
    and entry: "FLAGS_min_leaf_examples t * numLeaves
                  \<le> int (length (fst (sample_loop t er 0 ([], s0))))"
  shows "\<exists>tree fimps' s'. getTree t numLeaves er fr fimps s0 = Some (Inr (Some tree, fimps', s'))
     \<and> (\<forall>n\<in>set (allSplits s'). FLAGS_min_leaf_examples t \<le> int (length (subset n)))"
proof -
  let ?m = "FLAGS_min_leaf_examples t"
  obtain sub s1 where sl: "sample_loop t er 0 ([], s0) = (sub, s1)"
    by (cases "sample_loop t er 0 ([], s0)")
  from m1 nl have mn: "?m * 1 \<le> ?m * numLeaves" by (intro mult_left_mono) simp_all
  then have m_le: "?m \<le> ?m * numLeaves" by simp
  with m1 have p0: "0 \<le> ?m * numLeaves" by linarith
  from int32_id[OF p0 prod] as_size_t_id[OF p0 prod] entry sl
  have ck: "as_size_t (int32 (?m * numLeaves)) \<le> int (length sub)" by simp
  from m1 m_le prod have am: "as_size_t ?m = ?m" by (intro as_size_t_id) linarith+
  from cons fl a f sl ck obtain s2 where inv: "arena_inv t sub s2" and ro: "rows_ok t sub"
    and out: "(\<exists>tree fimps'. getTree t numLeaves er fr fimps s0 = Some (Inr (Some tree, fimps', s2)))
     \<or> (getTree t numLeaves er fr fimps s0 = Some (Inl (CHECK_failed Leaf_subset_size))
        \<and> (\<exists>n\<in>set (allSplits s2). \<not> as_size_t ?m \<le> int (length (subset n))))"
    by (rule getTree_after_check)
  have all: "\<forall>n\<in>set (allSplits s2). ?m \<le> int (length (subset n))"
  proof
    fix n assume "n \<in> set (allSplits s2)"
    then obtain p where p: "p < length (allSplits s2)" "allSplits s2 ! p = n"
      by (auto simp: in_set_conv_nth)
    show "?m \<le> int (length (subset n))"
    proof (cases "p = 0")
      case True
      with inv p have "subset n = sub" unfolding arena_inv_def by blast
      with entry sl m_le show ?thesis by simp
    next
      case False
      with inv p wf ro show ?thesis unfolding arena_inv_def by blast
    qed
  qed
  with out am show ?thesis by auto
qed


text \<open>The theorem at \<^verbatim>\<open>getTree\<close> with two leaves on the four rows.\<close>

lemma four_rows_wf: "ds_wf four_rows"
proof -
  have "code_of \<lparr>encoding = BYTE, transitions = [10, 20, 30], bvec = [0, 1, 2, 3], svec = []\<rparr> i
      \<le> Suc (Suc (Suc 0))" if "i < 4" for i
  proof -
    from that have "i = 0 \<or> i = 1 \<or> i = 2 \<or> i = 3" by arith
    then show ?thesis by (auto simp: code_of_def)
  qed
  then show ?thesis
    by (simp add: ds_wf_def four_rows_def four_rows_ds_def)
qed

theorem leaves_hold_min_leaf_examples_witness:
  "ds_wf four_rows \<and> 1 \<le> FLAGS_min_leaf_examples four_rows
   \<and> FLAGS_min_leaf_examples four_rows * 2
        \<le> int (length (fst (sample_loop four_rows 1 0 ([], fresh))))
   \<and> (\<exists>tree fimps' s'. getTree four_rows 2 1 1 [0] fresh = Some (Inr (Some tree, fimps', s'))
        \<and> (\<forall>n\<in>set (allSplits s').
              FLAGS_min_leaf_examples four_rows \<le> int (length (subset n))))"
proof -
  have cons: "numFeatures (ds four_rows) \<le> int (length (features (ds four_rows)))"
    by (simp add: four_rows_def four_rows_ds_def)
  have fl: "numFeatures (ds four_rows) \<le> int (length [0::real])"
    by (simp add: four_rows_def four_rows_ds_def)
  have m1: "1 \<le> FLAGS_min_leaf_examples four_rows" by (simp add: four_rows_def)
  have nl: "(1::int) \<le> 2" by simp
  have prod: "FLAGS_min_leaf_examples four_rows * 2 < 2 ^ 31" by (simp add: four_rows_def)
  have a: "allSplits fresh = []" and f: "frontiers fresh = []" by (simp_all add: fresh_def)
  have entry: "FLAGS_min_leaf_examples four_rows * 2
        \<le> int (length (fst (sample_loop four_rows 1 0 ([], fresh))))"
    unfolding four_rows_sample by (simp add: four_rows_def)
  from leaves_hold_min_leaf_examples[OF four_rows_wf cons fl m1 nl prod a f entry, of 1]
    four_rows_wf m1 entry
  show ?thesis by blast
qed



section \<open>Selected candidates\<close>

text \<open>
  Claim C9. On a data set that holds as many features as it claims and a regressor with an
  empty arena and frontier, growth returns, and in the arena it leaves: every selected
  node has a positive gain; every node of positive gain has a feature id inside the data
  set's features, of a feature that is not empty, and a threshold that is one of that
  feature's boundaries; and \<^verbatim>\<open>splitExamples\<close> on a selected node returns its two sides
  (no index outside the features, no failed check). With importances for every feature,
  \<^verbatim>\<open>getTree\<close> returns and never indexes outside \<^verbatim>\<open>features_\<close> or \<^verbatim>\<open>fimps\<close>.
\<close>

theorem selected_candidates_are_valid:
  assumes cons: "numFeatures (ds t) \<le> int (length (features (ds t)))"
    and a: "allSplits s0 = []" and f: "frontiers s0 = []"
  shows "(\<exists>s. getBestSplits t sub numSplits r s0 = Inr (0, s)
      \<and> (\<forall>n\<in>set (allSplits s).
            (selected n \<longrightarrow> 0 < gain n)
          \<and> (0 < gain n \<longrightarrow>
                0 \<le> fid n \<and> fid n < numFeatures (ds t) \<and> nat (fid n) < length (features (ds t))
              \<and> encoding (features (ds t) ! nat (fid n)) \<noteq> EMPTY
              \<and> unat (fv n) < length (transitions (features (ds t) ! nat (fid n))))
          \<and> (selected n \<longrightarrow> (\<exists>lr. splitExamples t n ([], []) = Inr lr))))
    \<and> (numFeatures (ds t) \<le> int (length fimps) \<longrightarrow>
          getTree t numLeaves er r fimps s0 \<noteq> Some (Inl Out_of_bounds)
        \<and> getTree t numLeaves er r fimps s0 \<noteq> None)"
proof (intro conjI impI)
  from getBestSplits_returns[OF cons a f, of sub numSplits r] obtain s where
    gb: "getBestSplits t sub numSplits r s0 = Inr (0, s)" and inv: "arena_inv t sub s"
    by blast
  have "(selected n \<longrightarrow> 0 < gain n)
          \<and> (0 < gain n \<longrightarrow>
                0 \<le> fid n \<and> fid n < numFeatures (ds t) \<and> nat (fid n) < length (features (ds t))
              \<and> encoding (features (ds t) ! nat (fid n)) \<noteq> EMPTY
              \<and> unat (fv n) < length (transitions (features (ds t) ! nat (fid n))))
          \<and> (selected n \<longrightarrow> (\<exists>lr. splitExamples t n ([], []) = Inr lr))"
    if "n \<in> set (allSplits s)" for n
  proof -
    from arena_selected[OF inv that] have ok: "node_ok t n" and sg: "selected n \<longrightarrow> 0 < gain n"
      by blast+
    from ok have v: "0 < gain n \<longrightarrow>
                0 \<le> fid n \<and> fid n < numFeatures (ds t) \<and> nat (fid n) < length (features (ds t))
              \<and> encoding (features (ds t) ! nat (fid n)) \<noteq> EMPTY
              \<and> unat (fv n) < length (transitions (features (ds t) ! nat (fid n)))"
      unfolding node_ok_def by blast
    have "\<exists>lr. splitExamples t n ([], []) = Inr lr" if "selected n"
      using splitExamples_filter[OF ok] sg that by blast
    with sg v show ?thesis by blast
  qed
  with gb show "\<exists>s. getBestSplits t sub numSplits r s0 = Inr (0, s)
      \<and> (\<forall>n\<in>set (allSplits s).
            (selected n \<longrightarrow> 0 < gain n)
          \<and> (0 < gain n \<longrightarrow>
                0 \<le> fid n \<and> fid n < numFeatures (ds t) \<and> nat (fid n) < length (features (ds t))
              \<and> encoding (features (ds t) ! nat (fid n)) \<noteq> EMPTY
              \<and> unat (fv n) < length (transitions (features (ds t) ! nat (fid n))))
          \<and> (selected n \<longrightarrow> (\<exists>lr. splitExamples t n ([], []) = Inr lr)))"
    by blast
next
  assume fl: "numFeatures (ds t) \<le> int (length fimps)"
  obtain sb s1 where sl: "sample_loop t er 0 ([], s0) = (sb, s1)"
    by (cases "sample_loop t er 0 ([], s0)")
  have "getTree t numLeaves er r fimps s0 \<noteq> Some (Inl Out_of_bounds)
        \<and> getTree t numLeaves er r fimps s0 \<noteq> None"
  proof (cases "as_size_t (int32 (FLAGS_min_leaf_examples t * numLeaves)) \<le> int (length sb)")
    case True
    from cons fl a f sl True obtain s2 where
      "(\<exists>tree fimps'. getTree t numLeaves er r fimps s0 = Some (Inr (Some tree, fimps', s2)))
     \<or> (getTree t numLeaves er r fimps s0 = Some (Inl (CHECK_failed Leaf_subset_size))
        \<and> (\<exists>n\<in>set (allSplits s2).
             \<not> as_size_t (FLAGS_min_leaf_examples t) \<le> int (length (subset n))))"
      by (rule getTree_after_check)
    then show ?thesis by auto
  next
    case False
    with sl show ?thesis by (simp add: getTree_def)
  qed
  then show "getTree t numLeaves er r fimps s0 \<noteq> Some (Inl Out_of_bounds)"
    and "getTree t numLeaves er r fimps s0 \<noteq> None"
    by blast+
qed

text \<open>The theorem at the four rows, grown with two splits and materialised with three
  leaves.\<close>

theorem selected_candidates_are_valid_witness:
  "numFeatures (ds four_rows) \<le> int (length (features (ds four_rows)))
   \<and> allSplits fresh = [] \<and> frontiers fresh = []
   \<and> (\<exists>s. getBestSplits four_rows [0, 1, 2, 3] 2 1 fresh = Inr (0, s)
      \<and> (\<forall>n\<in>set (allSplits s).
            (selected n \<longrightarrow> 0 < gain n)
          \<and> (0 < gain n \<longrightarrow>
                0 \<le> fid n \<and> fid n < numFeatures (ds four_rows)
              \<and> nat (fid n) < length (features (ds four_rows))
              \<and> encoding (features (ds four_rows) ! nat (fid n)) \<noteq> EMPTY
              \<and> unat (fv n) < length (transitions (features (ds four_rows) ! nat (fid n))))
          \<and> (selected n \<longrightarrow> (\<exists>lr. splitExamples four_rows n ([], []) = Inr lr))))
   \<and> numFeatures (ds four_rows) \<le> int (length [0::real])
   \<and> getTree four_rows 3 1 1 [0] fresh \<noteq> Some (Inl Out_of_bounds)
   \<and> getTree four_rows 3 1 1 [0] fresh \<noteq> None"
proof -
  have cons: "numFeatures (ds four_rows) \<le> int (length (features (ds four_rows)))"
    by (simp add: four_rows_def four_rows_ds_def)
  have fl: "numFeatures (ds four_rows) \<le> int (length [0::real])"
    by (simp add: four_rows_def four_rows_ds_def)
  have a: "allSplits fresh = []" and f: "frontiers fresh = []" by (simp_all add: fresh_def)
  from selected_candidates_are_valid[OF cons a f, of "[0, 1, 2, 3]" 2 1 "[0]" 3 1] cons fl a f
  show ?thesis by blast
qed

end
